theory Spec2Isabelle
  imports Complex_Main "HOL-Library.Monad_Syntax"
begin

section \<open>Stable-fluids solver: the grid and its buffers\<close>

text \<open>
  The solver works on module-level \<^verbatim>\<open>Float32Array\<close> buffers of \<open>(numCells + 2)\<^sup>2\<close>
  cells, addressed through \<^verbatim>\<open>index(i, j) = i + (numCells + 2) * j\<close>.

  Modelling decisions:
  \<^item> a buffer is a \<open>real list\<close>; cell values are exact reals, so the rounding of a
    store to 32-bit precision is outside the model. Infinities and NaN matter to the
    indices only where an index is computed from a cell value, which \<^verbatim>\<open>advect\<close> alone does:
    \<open>advect_js\<close> below is \<^verbatim>\<open>advect\<close> once more, on buffers of JavaScript numbers;
  \<^item> the source fixes \<^verbatim>\<open>numCells = 50\<close>; every function below takes the resolution
    \<open>N\<close> as its first argument, and \<open>numCells\<close> records the source's value;
  \<^item> a typed-array read outside the buffer yields \<^verbatim>\<open>undefined\<close> and a write outside is
    dropped. Both are the value \<open>None\<close> here, so a function that returns \<open>Some\<close> has
    dereferenced only indices inside its buffers;
  \<^item> JavaScript numbers holding loop counters and cell indices are \<open>int\<close>;
  \<^item> the functions mutate their array arguments; the model returns the new arrays.
    At every call site of the source the written array is a buffer different from the
    arrays that are only read, so no aliasing is lost.
\<close>

type_synonym field = "real list"

definition numCells :: int where
  "numCells = 50"

definition size_grid :: "int \<Rightarrow> int" where
  "size_grid N = (N + 2) * (N + 2)"

definition numSubSteps :: real where
  "numSubSteps = 8"

definition dt :: real where
  "dt = 1.0 / (numSubSteps * 30.0)"

definition clamp :: "real \<Rightarrow> real \<Rightarrow> real \<Rightarrow> real" where
  "clamp x x_min x_max = max x_min (min x x_max)"

definition index :: "int \<Rightarrow> int \<Rightarrow> int \<Rightarrow> int" where
  "index N i j = i + (N + 2) * j"

text \<open>Reading \<^verbatim>\<open>x[k]\<close> and writing \<^verbatim>\<open>x[k] = v\<close>, with the range check made explicit.\<close>

definition rd :: "field \<Rightarrow> int \<Rightarrow> real option" where
  "rd x k = (if 0 \<le> k \<and> k < int (length x) then Some (x ! nat k) else None)"

definition wr :: "field \<Rightarrow> int \<Rightarrow> real \<Rightarrow> field option" where
  "wr x k val = (if 0 \<le> k \<and> k < int (length x) then Some (x[nat k := val]) else None)"

text \<open>
  \<^verbatim>\<open>for (let i = lo; i <= hi; ++i) body\<close> runs the body over \<open>[lo..hi]\<close> in order,
  threading the arrays it mutates and stopping at the first failed access.
\<close>

fun for_loop :: "int list \<Rightarrow> (int \<Rightarrow> 'a \<Rightarrow> 'a option) \<Rightarrow> 'a \<Rightarrow> 'a option" where
  "for_loop [] body x = Some x"
| "for_loop (k # ks) body x =
     (case body k x of None \<Rightarrow> None | Some x' \<Rightarrow> for_loop ks body x')"

subsection \<open>addSource\<close>

definition addSource :: "int \<Rightarrow> field \<Rightarrow> field \<Rightarrow> field option" where
  "addSource N x s =
     for_loop [0..size_grid N - 1]
       (\<lambda>i x. do { xi \<leftarrow> rd x i; si \<leftarrow> rd s i; wr x i (xi + dt * si) }) x"

subsection \<open>setBoundary\<close>

text \<open>The boundary type is the source's string tag; any tag other than the two wall
  tags takes the mirroring branches.\<close>

definition setBoundary_row :: "int \<Rightarrow> string \<Rightarrow> int \<Rightarrow> field \<Rightarrow> field option" where
  "setBoundary_row N boundaryType i x =
     (if boundaryType = ''top_bottom_walls'' then do {
        a \<leftarrow> rd x (index N i 1);
        x \<leftarrow> wr x (index N i 0) (- a);
        b \<leftarrow> rd x (index N i N);
        wr x (index N i (N + 1)) (- b)
      } else do {
        a \<leftarrow> rd x (index N i 1);
        x \<leftarrow> wr x (index N i 0) a;
        b \<leftarrow> rd x (index N i N);
        wr x (index N i (N + 1)) b
      })"

definition setBoundary_col :: "int \<Rightarrow> string \<Rightarrow> int \<Rightarrow> field \<Rightarrow> field option" where
  "setBoundary_col N boundaryType j x =
     (if boundaryType = ''left_right_walls'' then do {
        a \<leftarrow> rd x (index N 1 j);
        x \<leftarrow> wr x (index N 0 j) (- a);
        b \<leftarrow> rd x (index N N j);
        wr x (index N (N + 1) j) (- b)
      } else do {
        a \<leftarrow> rd x (index N 1 j);
        x \<leftarrow> wr x (index N 0 j) a;
        b \<leftarrow> rd x (index N N j);
        wr x (index N (N + 1) j) b
      })"

definition setBoundary_corners :: "int \<Rightarrow> field \<Rightarrow> field option" where
  "setBoundary_corners N x = do {
     a \<leftarrow> rd x (index N 0 1);
     b \<leftarrow> rd x (index N 1 0);
     x \<leftarrow> wr x (index N 0 0) (0.5 * (a + b));
     a \<leftarrow> rd x (index N (N + 1) 1);
     b \<leftarrow> rd x (index N N 0);
     x \<leftarrow> wr x (index N (N + 1) 0) (0.5 * (a + b));
     a \<leftarrow> rd x (index N 0 N);
     b \<leftarrow> rd x (index N 1 (N + 1));
     x \<leftarrow> wr x (index N 0 (N + 1)) (0.5 * (a + b));
     a \<leftarrow> rd x (index N (N + 1) N);
     b \<leftarrow> rd x (index N N (N + 1));
     wr x (index N (N + 1) (N + 1)) (0.5 * (a + b))
   }"

definition setBoundary :: "int \<Rightarrow> field \<Rightarrow> string \<Rightarrow> field option" where
  "setBoundary N x boundaryType = do {
     x \<leftarrow> for_loop [1..N] (setBoundary_row N boundaryType) x;
     x \<leftarrow> for_loop [1..N] (setBoundary_col N boundaryType) x;
     setBoundary_corners N x
   }"

subsection \<open>diffuse\<close>

definition diffusion_rate :: real where
  "diffusion_rate = 0.0001"

text \<open>The body of the two inner loops: the update is stored, read back and divided.\<close>

definition diffuse_cell :: "int \<Rightarrow> real \<Rightarrow> field \<Rightarrow> int \<Rightarrow> int \<Rightarrow> field \<Rightarrow> field option" where
  "diffuse_cell N a x_0 i j x = do {
     c \<leftarrow> rd x_0 (index N i j);
     w \<leftarrow> rd x (index N (i - 1) j);
     e \<leftarrow> rd x (index N (i + 1) j);
     s \<leftarrow> rd x (index N i (j - 1));
     n \<leftarrow> rd x (index N i (j + 1));
     x \<leftarrow> wr x (index N i j) (c + a * (w + e + s + n));
     t \<leftarrow> rd x (index N i j);
     wr x (index N i j) (t / (1.0 + 4.0 * a))
   }"

definition diffuse :: "int \<Rightarrow> field \<Rightarrow> field \<Rightarrow> string \<Rightarrow> field option" where
  "diffuse N x x_0 boundaryType =
     (let numIters = 4;
          h = 1.0 / real_of_int N;
          a = (dt * diffusion_rate) / (h * h)
      in for_loop [0..numIters - 1]
           (\<lambda>k x. do {
              x \<leftarrow> for_loop [1..N] (\<lambda>i. for_loop [1..N] (\<lambda>j. diffuse_cell N a x_0 i j)) x;
              setBoundary N x boundaryType
            }) x)"

subsection \<open>advect\<close>

definition advect_cell ::
  "int \<Rightarrow> field \<Rightarrow> field \<Rightarrow> field \<Rightarrow> int \<Rightarrow> int \<Rightarrow> field \<Rightarrow> field option" where
  "advect_cell N x_0 u_0 v_0 i j x = do {
     uc \<leftarrow> rd u_0 (index N i j);
     vc \<leftarrow> rd v_0 (index N i j);
     let p_x = real_of_int i - dt * uc * real_of_int N;
     let p_y = real_of_int j - dt * vc * real_of_int N;
     let p_x = (if p_x < 0.5 then 0.5 else p_x);
     let p_x = (if p_x > real_of_int N + 0.5 then real_of_int N + 0.5 else p_x);
     let p_y = (if p_y < 0.5 then 0.5 else p_y);
     let p_y = (if p_y > real_of_int N + 0.5 then real_of_int N + 0.5 else p_y);
     let i0 = \<lfloor>p_x\<rfloor>;
     let i1 = i0 + 1;
     let j0 = \<lfloor>p_y\<rfloor>;
     let j1 = j0 + 1;
     let s1 = p_x - real_of_int i0;
     let s0 = 1 - s1;
     let t1 = p_y - real_of_int j0;
     let t0 = 1 - t1;
     x00 \<leftarrow> rd x_0 (index N i0 j0);
     x01 \<leftarrow> rd x_0 (index N i0 j1);
     x10 \<leftarrow> rd x_0 (index N i1 j0);
     x11 \<leftarrow> rd x_0 (index N i1 j1);
     wr x (index N i j) (s0 * (t0 * x00 + t1 * x01) + s1 * (t0 * x10 + t1 * x11))
   }"

definition advect :: "int \<Rightarrow> field \<Rightarrow> field \<Rightarrow> field \<Rightarrow> field \<Rightarrow> string \<Rightarrow> field option" where
  "advect N x x_0 u_0 v_0 boundaryType = do {
     x \<leftarrow> for_loop [1..N] (\<lambda>i. for_loop [1..N] (\<lambda>j. advect_cell N x_0 u_0 v_0 i j)) x;
     setBoundary N x boundaryType
   }"

subsection \<open>advect over JavaScript numbers\<close>

text \<open>
  A JavaScript number is a real, \<^verbatim>\<open>Infinity\<close>, \<^verbatim>\<open>-Infinity\<close> or \<^verbatim>\<open>NaN\<close>. Arithmetic on reals
  is exact (no rounding, no overflow, one zero); with an infinity or \<^verbatim>\<open>NaN\<close> the operators
  \<^verbatim>\<open>-x\<close>, \<^verbatim>\<open>+\<close>, \<^verbatim>\<open>-\<close>, \<^verbatim>\<open>*\<close>, \<^verbatim>\<open><\<close> and \<^verbatim>\<open>Math.floor\<close> follow IEEE 754: \<^verbatim>\<open>Infinity - Infinity\<close>
  and \<^verbatim>\<open>0 * Infinity\<close> are \<^verbatim>\<open>NaN\<close>, \<^verbatim>\<open>NaN\<close> propagates, every comparison with \<^verbatim>\<open>NaN\<close> is false, and
  \<^verbatim>\<open>Math.floor\<close> keeps the infinities and \<^verbatim>\<open>NaN\<close>. The test \<^verbatim>\<open>a > b\<close> is \<open>js_less b a\<close>.
\<close>

datatype jsnum = Fin real | PosInf | NegInf | NaN

type_synonym jsfield = "jsnum list"

fun js_neg :: "jsnum \<Rightarrow> jsnum" where
  "js_neg (Fin a) = Fin (- a)"
| "js_neg PosInf = NegInf"
| "js_neg NegInf = PosInf"
| "js_neg NaN = NaN"

fun js_add :: "jsnum \<Rightarrow> jsnum \<Rightarrow> jsnum" where
  "js_add (Fin a) (Fin b) = Fin (a + b)"
| "js_add (Fin a) PosInf = PosInf"
| "js_add (Fin a) NegInf = NegInf"
| "js_add PosInf (Fin b) = PosInf"
| "js_add PosInf PosInf = PosInf"
| "js_add PosInf NegInf = NaN"
| "js_add NegInf (Fin b) = NegInf"
| "js_add NegInf PosInf = NaN"
| "js_add NegInf NegInf = NegInf"
| "js_add NaN b = NaN"
| "js_add (Fin a) NaN = NaN"
| "js_add PosInf NaN = NaN"
| "js_add NegInf NaN = NaN"

definition js_sub :: "jsnum \<Rightarrow> jsnum \<Rightarrow> jsnum" where
  "js_sub a b = js_add a (js_neg b)"

fun js_mul :: "jsnum \<Rightarrow> jsnum \<Rightarrow> jsnum" where
  "js_mul (Fin a) (Fin b) = Fin (a * b)"
| "js_mul (Fin a) PosInf = (if a = 0 then NaN else if 0 < a then PosInf else NegInf)"
| "js_mul (Fin a) NegInf = (if a = 0 then NaN else if 0 < a then NegInf else PosInf)"
| "js_mul PosInf (Fin b) = (if b = 0 then NaN else if 0 < b then PosInf else NegInf)"
| "js_mul PosInf PosInf = PosInf"
| "js_mul PosInf NegInf = NegInf"
| "js_mul NegInf (Fin b) = (if b = 0 then NaN else if 0 < b then NegInf else PosInf)"
| "js_mul NegInf PosInf = NegInf"
| "js_mul NegInf NegInf = PosInf"
| "js_mul NaN b = NaN"
| "js_mul (Fin a) NaN = NaN"
| "js_mul PosInf NaN = NaN"
| "js_mul NegInf NaN = NaN"

fun js_less :: "jsnum \<Rightarrow> jsnum \<Rightarrow> bool" where
  "js_less (Fin a) (Fin b) = (a < b)"
| "js_less (Fin a) PosInf = True"
| "js_less (Fin a) NegInf = False"
| "js_less PosInf b = False"
| "js_less NegInf (Fin b) = True"
| "js_less NegInf PosInf = True"
| "js_less NegInf NegInf = False"
| "js_less NaN b = False"
| "js_less (Fin a) NaN = False"
| "js_less NegInf NaN = False"

fun js_floor :: "jsnum \<Rightarrow> jsnum" where
  "js_floor (Fin a) = Fin (real_of_int \<lfloor>a\<rfloor>)"
| "js_floor PosInf = PosInf"
| "js_floor NegInf = NegInf"
| "js_floor NaN = NaN"

fun js_int :: "jsnum \<Rightarrow> int option" where
  "js_int (Fin a) = (if a = real_of_int \<lfloor>a\<rfloor> then Some \<lfloor>a\<rfloor> else None)"
| "js_int PosInf = None"
| "js_int NegInf = None"
| "js_int NaN = None"

text \<open>
  \<open>js_int k\<close> is the integer that the number \<open>k\<close> is, if it is one. Buffers of JavaScript
  numbers are read and written at a loop counter by \<open>rd_js\<close> and \<open>wr_js\<close>, as \<open>rd\<close> and \<open>wr\<close>
  do; \<open>rd_num\<close> is the read \<^verbatim>\<open>x[k]\<close> at a computed number \<open>k\<close>, which yields \<^verbatim>\<open>undefined\<close>
  (here \<open>None\<close>) unless \<open>k\<close> is an integer inside the buffer; \<open>index_js\<close> is \<^verbatim>\<open>index\<close> on numbers.
\<close>

definition rd_js :: "jsfield \<Rightarrow> int \<Rightarrow> jsnum option" where
  "rd_js x k = (if 0 \<le> k \<and> k < int (length x) then Some (x ! nat k) else None)"

definition wr_js :: "jsfield \<Rightarrow> int \<Rightarrow> jsnum \<Rightarrow> jsfield option" where
  "wr_js x k val = (if 0 \<le> k \<and> k < int (length x) then Some (x[nat k := val]) else None)"

definition rd_num :: "jsfield \<Rightarrow> jsnum \<Rightarrow> jsnum option" where
  "rd_num x k = (case js_int k of None \<Rightarrow> None | Some n \<Rightarrow> rd_js x n)"

definition index_js :: "int \<Rightarrow> jsnum \<Rightarrow> jsnum \<Rightarrow> jsnum" where
  "index_js N i j = js_add i (js_mul (Fin (real_of_int (N + 2))) j)"

text \<open>\<^verbatim>\<open>setBoundary\<close>, which \<^verbatim>\<open>advect\<close> calls last, on a buffer of JavaScript numbers.\<close>

definition setBoundary_row_js :: "int \<Rightarrow> string \<Rightarrow> int \<Rightarrow> jsfield \<Rightarrow> jsfield option" where
  "setBoundary_row_js N boundaryType i x =
     (if boundaryType = ''top_bottom_walls'' then do {
        a \<leftarrow> rd_js x (index N i 1);
        x \<leftarrow> wr_js x (index N i 0) (js_neg a);
        b \<leftarrow> rd_js x (index N i N);
        wr_js x (index N i (N + 1)) (js_neg b)
      } else do {
        a \<leftarrow> rd_js x (index N i 1);
        x \<leftarrow> wr_js x (index N i 0) a;
        b \<leftarrow> rd_js x (index N i N);
        wr_js x (index N i (N + 1)) b
      })"

definition setBoundary_col_js :: "int \<Rightarrow> string \<Rightarrow> int \<Rightarrow> jsfield \<Rightarrow> jsfield option" where
  "setBoundary_col_js N boundaryType j x =
     (if boundaryType = ''left_right_walls'' then do {
        a \<leftarrow> rd_js x (index N 1 j);
        x \<leftarrow> wr_js x (index N 0 j) (js_neg a);
        b \<leftarrow> rd_js x (index N N j);
        wr_js x (index N (N + 1) j) (js_neg b)
      } else do {
        a \<leftarrow> rd_js x (index N 1 j);
        x \<leftarrow> wr_js x (index N 0 j) a;
        b \<leftarrow> rd_js x (index N N j);
        wr_js x (index N (N + 1) j) b
      })"

definition setBoundary_corners_js :: "int \<Rightarrow> jsfield \<Rightarrow> jsfield option" where
  "setBoundary_corners_js N x = do {
     a \<leftarrow> rd_js x (index N 0 1);
     b \<leftarrow> rd_js x (index N 1 0);
     x \<leftarrow> wr_js x (index N 0 0) (js_mul (Fin 0.5) (js_add a b));
     a \<leftarrow> rd_js x (index N (N + 1) 1);
     b \<leftarrow> rd_js x (index N N 0);
     x \<leftarrow> wr_js x (index N (N + 1) 0) (js_mul (Fin 0.5) (js_add a b));
     a \<leftarrow> rd_js x (index N 0 N);
     b \<leftarrow> rd_js x (index N 1 (N + 1));
     x \<leftarrow> wr_js x (index N 0 (N + 1)) (js_mul (Fin 0.5) (js_add a b));
     a \<leftarrow> rd_js x (index N (N + 1) N);
     b \<leftarrow> rd_js x (index N N (N + 1));
     wr_js x (index N (N + 1) (N + 1)) (js_mul (Fin 0.5) (js_add a b))
   }"

definition setBoundary_js :: "int \<Rightarrow> jsfield \<Rightarrow> string \<Rightarrow> jsfield option" where
  "setBoundary_js N x boundaryType = do {
     x \<leftarrow> for_loop [1..N] (setBoundary_row_js N boundaryType) x;
     x \<leftarrow> for_loop [1..N] (setBoundary_col_js N boundaryType) x;
     setBoundary_corners_js N x
   }"

text \<open>
  \<^verbatim>\<open>advect\<close>: the traced point, the four tests, the stencil and the interpolation are
  computed in JavaScript numbers, and the four reads of \<^verbatim>\<open>x_0\<close> are at computed indices.
\<close>

definition advect_cell_js ::
  "int \<Rightarrow> jsfield \<Rightarrow> jsfield \<Rightarrow> jsfield \<Rightarrow> int \<Rightarrow> int \<Rightarrow> jsfield \<Rightarrow> jsfield option" where
  "advect_cell_js N x_0 u_0 v_0 i j x = do {
     uc \<leftarrow> rd_js u_0 (index N i j);
     vc \<leftarrow> rd_js v_0 (index N i j);
     let p_x = js_sub (Fin (real_of_int i)) (js_mul (js_mul (Fin dt) uc) (Fin (real_of_int N)));
     let p_y = js_sub (Fin (real_of_int j)) (js_mul (js_mul (Fin dt) vc) (Fin (real_of_int N)));
     let p_x = (if js_less p_x (Fin 0.5) then Fin 0.5 else p_x);
     let p_x = (if js_less (Fin (real_of_int N + 0.5)) p_x then Fin (real_of_int N + 0.5) else p_x);
     let p_y = (if js_less p_y (Fin 0.5) then Fin 0.5 else p_y);
     let p_y = (if js_less (Fin (real_of_int N + 0.5)) p_y then Fin (real_of_int N + 0.5) else p_y);
     let i0 = js_floor p_x;
     let i1 = js_add i0 (Fin 1);
     let j0 = js_floor p_y;
     let j1 = js_add j0 (Fin 1);
     let s1 = js_sub p_x i0;
     let s0 = js_sub (Fin 1) s1;
     let t1 = js_sub p_y j0;
     let t0 = js_sub (Fin 1) t1;
     x00 \<leftarrow> rd_num x_0 (index_js N i0 j0);
     x01 \<leftarrow> rd_num x_0 (index_js N i0 j1);
     x10 \<leftarrow> rd_num x_0 (index_js N i1 j0);
     x11 \<leftarrow> rd_num x_0 (index_js N i1 j1);
     wr_js x (index N i j)
       (js_add (js_mul s0 (js_add (js_mul t0 x00) (js_mul t1 x01)))
               (js_mul s1 (js_add (js_mul t0 x10) (js_mul t1 x11))))
   }"

definition advect_js ::
  "int \<Rightarrow> jsfield \<Rightarrow> jsfield \<Rightarrow> jsfield \<Rightarrow> jsfield \<Rightarrow> string \<Rightarrow> jsfield option" where
  "advect_js N x x_0 u_0 v_0 boundaryType = do {
     x \<leftarrow> for_loop [1..N] (\<lambda>i. for_loop [1..N] (\<lambda>j. advect_cell_js N x_0 u_0 v_0 i j)) x;
     setBoundary_js N x boundaryType
   }"

subsection \<open>project\<close>

definition divergence_cell ::
  "int \<Rightarrow> real \<Rightarrow> field \<Rightarrow> field \<Rightarrow> int \<Rightarrow> int \<Rightarrow> field \<Rightarrow> field option" where
  "divergence_cell N h u v i j dv = do {
     ue \<leftarrow> rd u (index N (i + 1) j);
     uw \<leftarrow> rd u (index N (i - 1) j);
     vn \<leftarrow> rd v (index N i (j + 1));
     vs \<leftarrow> rd v (index N i (j - 1));
     wr dv (index N i j) (((ue - uw) / (- 2)) * h + ((vn - vs) / (- 2)) * h)
   }"

definition pressure_cell :: "int \<Rightarrow> field \<Rightarrow> int \<Rightarrow> int \<Rightarrow> field \<Rightarrow> field option" where
  "pressure_cell N dv i j p = do {
     w \<leftarrow> rd p (index N (i - 1) j);
     e \<leftarrow> rd p (index N (i + 1) j);
     s \<leftarrow> rd p (index N i (j - 1));
     n \<leftarrow> rd p (index N i (j + 1));
     c \<leftarrow> rd dv (index N i j);
     wr p (index N i j) ((w + e + s + n + c) / 4)
   }"

definition gradient_cell ::
  "int \<Rightarrow> real \<Rightarrow> field \<Rightarrow> int \<Rightarrow> int \<Rightarrow> field \<times> field \<Rightarrow> (field \<times> field) option" where
  "gradient_cell N h p i j uv = do {
     uc \<leftarrow> rd (fst uv) (index N i j);
     pe \<leftarrow> rd p (index N (i + 1) j);
     pw \<leftarrow> rd p (index N (i - 1) j);
     u' \<leftarrow> wr (fst uv) (index N i j) (uc - (pe - pw) / (2 * h));
     vc \<leftarrow> rd (snd uv) (index N i j);
     pn \<leftarrow> rd p (index N i (j + 1));
     ps \<leftarrow> rd p (index N i (j - 1));
     v' \<leftarrow> wr (snd uv) (index N i j) (vc - (pn - ps) / (2 * h));
     Some (u', v')
   }"

text \<open>The result lists the four arrays in argument order: \<open>u\<close>, \<open>v\<close>, \<open>p\<close>, \<open>div\<close>.\<close>

definition project ::
  "int \<Rightarrow> field \<Rightarrow> field \<Rightarrow> field \<Rightarrow> field \<Rightarrow> (field \<times> field \<times> field \<times> field) option" where
  "project N u v p dv =
     (let numIters = 10;
          h = 1.0 / real_of_int N
      in do {
        p \<leftarrow> for_loop [0..size_grid N - 1] (\<lambda>i p. wr p i 0.0) p;
        dv \<leftarrow> for_loop [1..N] (\<lambda>i. for_loop [1..N] (\<lambda>j. divergence_cell N h u v i j)) dv;
        dv \<leftarrow> setBoundary N dv ''continuous'';
        p \<leftarrow> for_loop [0..numIters - 1]
               (\<lambda>k p. do {
                  p \<leftarrow> for_loop [1..N] (\<lambda>i. for_loop [1..N] (\<lambda>j. pressure_cell N dv i j)) p;
                  setBoundary N p ''continuous''
                }) p;
        uv \<leftarrow> for_loop [1..N] (\<lambda>i. for_loop [1..N] (\<lambda>j. gradient_cell N h p i j)) (u, v);
        u \<leftarrow> setBoundary N (fst uv) ''left_right_walls'';
        v \<leftarrow> setBoundary N (snd uv) ''top_bottom_walls'';
        Some (u, v, p, dv)
      })"

subsection \<open>The stepper\<close>

text \<open>The nine module-level buffers. A swap \<^verbatim>\<open>[u, uPrev] = [uPrev, u]\<close> exchanges
  two fields of the record.\<close>

record state =
  u :: field
  v :: field
  d :: field
  uPrev :: field
  vPrev :: field
  dPrev :: field
  dSource :: field
  uSource :: field
  vSource :: field

definition densityStep :: "int \<Rightarrow> state \<Rightarrow> state option" where
  "densityStep N s = do {
     d1 \<leftarrow> addSource N (d s) (dSource s);
     let s = s\<lparr>d := d1\<rparr>;
     let s = s\<lparr>d := dPrev s, dPrev := d s\<rparr>;
     d2 \<leftarrow> diffuse N (d s) (dPrev s) ''continuous'';
     let s = s\<lparr>d := d2\<rparr>;
     let s = s\<lparr>d := dPrev s, dPrev := d s\<rparr>;
     d3 \<leftarrow> advect N (d s) (dPrev s) (u s) (v s) ''continuous'';
     Some (s\<lparr>d := d3\<rparr>)
   }"

definition velocityStep :: "int \<Rightarrow> state \<Rightarrow> state option" where
  "velocityStep N s = do {
     u1 \<leftarrow> addSource N (u s) (uSource s);
     let s = s\<lparr>u := u1\<rparr>;
     v1 \<leftarrow> addSource N (v s) (vSource s);
     let s = s\<lparr>v := v1\<rparr>;
     let s = s\<lparr>u := uPrev s, uPrev := u s\<rparr>;
     let s = s\<lparr>v := vPrev s, vPrev := v s\<rparr>;
     u2 \<leftarrow> diffuse N (u s) (uPrev s) ''left_right_walls'';
     let s = s\<lparr>u := u2\<rparr>;
     v2 \<leftarrow> diffuse N (v s) (vPrev s) ''top_bottom_walls'';
     let s = s\<lparr>v := v2\<rparr>;
     (u3, v3, p3, q3) \<leftarrow> project N (u s) (v s) (uPrev s) (vPrev s);
     let s = s\<lparr>u := u3, v := v3, uPrev := p3, vPrev := q3\<rparr>;
     let s = s\<lparr>u := uPrev s, uPrev := u s\<rparr>;
     let s = s\<lparr>v := vPrev s, vPrev := v s\<rparr>;
     u4 \<leftarrow> advect N (u s) (uPrev s) (uPrev s) (vPrev s) ''left_right_walls'';
     let s = s\<lparr>u := u4\<rparr>;
     v4 \<leftarrow> advect N (v s) (vPrev s) (uPrev s) (vPrev s) ''top_bottom_walls'';
     let s = s\<lparr>v := v4\<rparr>;
     (u5, v5, p5, q5) \<leftarrow> project N (u s) (v s) (uPrev s) (vPrev s);
     Some (s\<lparr>u := u5, v := v5, uPrev := p5, vPrev := q5\<rparr>)
   }"

definition step :: "int \<Rightarrow> state \<Rightarrow> state option" where
  "step N s = do {
     s \<leftarrow> velocityStep N s;
     densityStep N s
   }"

text \<open>\<open>steps N n\<close> is \<open>n\<close> consecutive ticks, as the sub-step loop of \<^verbatim>\<open>update\<close> runs them.\<close>

fun steps :: "int \<Rightarrow> nat \<Rightarrow> state \<Rightarrow> state option" where
  "steps N 0 s = Some s"
| "steps N (Suc n) s = (case step N s of None \<Rightarrow> None | Some s' \<Rightarrow> steps N n s')"

section \<open>Vocabulary for the statements and proofs\<close>

subsection \<open>Cells of a buffer\<close>

text \<open>
  Grid coordinates, the interior, a buffer of the right length, and the cell \<open>(i, j)\<close> of
  a buffer read and replaced through \<open>index\<close>.
\<close>

definition in_grid :: "int \<Rightarrow> int \<Rightarrow> int \<Rightarrow> bool" where
  "in_grid N i j = (0 \<le> i \<and> i \<le> N + 1 \<and> 0 \<le> j \<and> j \<le> N + 1)"

definition interior :: "int \<Rightarrow> int \<Rightarrow> int \<Rightarrow> bool" where
  "interior N i j = (1 \<le> i \<and> i \<le> N \<and> 1 \<le> j \<and> j \<le> N)"

definition on_edge :: "int \<Rightarrow> int \<Rightarrow> int \<Rightarrow> bool" where
  "on_edge N a b = ((1 \<le> a \<and> a \<le> N \<and> (b = 0 \<or> b = N + 1)) \<or>
                     ((a = 0 \<or> a = N + 1) \<and> 1 \<le> b \<and> b \<le> N))"

definition is_corner :: "int \<Rightarrow> int \<Rightarrow> int \<Rightarrow> bool" where
  "is_corner N a b = ((a = 0 \<or> a = N + 1) \<and> (b = 0 \<or> b = N + 1))"

definition well_sized :: "int \<Rightarrow> field \<Rightarrow> bool" where
  "well_sized N x = (int (length x) = size_grid N)"

definition cell :: "int \<Rightarrow> field \<Rightarrow> int \<Rightarrow> int \<Rightarrow> real" where
  "cell N x i j = x ! nat (index N i j)"

definition upd :: "int \<Rightarrow> field \<Rightarrow> int \<Rightarrow> int \<Rightarrow> real \<Rightarrow> field" where
  "upd N x i j val = x[nat (index N i j) := val]"

definition zeros :: "int \<Rightarrow> field" where
  "zeros N = replicate (nat (size_grid N)) 0"

subsection \<open>What setBoundary leaves in each cell\<close>

text \<open>
  The sign a wall gives to a ghost row or column; the cells after the first \<open>k - 1\<close>
  iterations of the row loop and of the column loop; and the cell \<open>(a, b)\<close> after the whole
  of \<open>setBoundary\<close>, in terms of the buffer it started from.
\<close>

definition row_sign :: "string \<Rightarrow> real" where
  "row_sign boundaryType = (if boundaryType = ''top_bottom_walls'' then - 1 else 1)"

definition col_sign :: "string \<Rightarrow> real" where
  "col_sign boundaryType = (if boundaryType = ''left_right_walls'' then - 1 else 1)"

definition rows_done :: "int \<Rightarrow> string \<Rightarrow> field \<Rightarrow> int \<Rightarrow> int \<Rightarrow> int \<Rightarrow> real" where
  "rows_done N bt x k a b =
     (if 1 \<le> a \<and> a < k \<and> b = 0 then row_sign bt * cell N x a 1
      else if 1 \<le> a \<and> a < k \<and> b = N + 1 then row_sign bt * cell N x a N
      else cell N x a b)"

definition cols_done :: "int \<Rightarrow> string \<Rightarrow> field \<Rightarrow> int \<Rightarrow> int \<Rightarrow> int \<Rightarrow> real" where
  "cols_done N bt x k a b =
     (if 1 \<le> b \<and> b < k \<and> a = 0 then col_sign bt * cell N x 1 b
      else if 1 \<le> b \<and> b < k \<and> a = N + 1 then col_sign bt * cell N x N b
      else cell N x a b)"

definition edge_value :: "int \<Rightarrow> string \<Rightarrow> field \<Rightarrow> int \<Rightarrow> int \<Rightarrow> real" where
  "edge_value N bt x a b =
     (if 1 \<le> a \<and> a \<le> N \<and> b = 0 then row_sign bt * cell N x a 1
      else if 1 \<le> a \<and> a \<le> N \<and> b = N + 1 then row_sign bt * cell N x a N
      else if a = 0 \<and> 1 \<le> b \<and> b \<le> N then col_sign bt * cell N x 1 b
      else if a = N + 1 \<and> 1 \<le> b \<and> b \<le> N then col_sign bt * cell N x N b
      else cell N x a b)"

definition bnd :: "int \<Rightarrow> string \<Rightarrow> field \<Rightarrow> int \<Rightarrow> int \<Rightarrow> real" where
  "bnd N bt x a b =
     (if a = 0 \<and> b = 0 then 0.5 * (edge_value N bt x 0 1 + edge_value N bt x 1 0)
      else if a = N + 1 \<and> b = 0 then 0.5 * (edge_value N bt x (N + 1) 1 + edge_value N bt x N 0)
      else if a = 0 \<and> b = N + 1 then 0.5 * (edge_value N bt x 0 N + edge_value N bt x 1 (N + 1))
      else if a = N + 1 \<and> b = N + 1
        then 0.5 * (edge_value N bt x (N + 1) N + edge_value N bt x N (N + 1))
      else edge_value N bt x a b)"

subsection \<open>The loops over the interior\<close>

text \<open>
  \<open>visited N k l a b\<close>: the two nested loops, about to update cell \<open>(k, l)\<close>, have already
  updated cell \<open>(a, b)\<close>.
\<close>

definition visited :: "int \<Rightarrow> int \<Rightarrow> int \<Rightarrow> int \<Rightarrow> int \<Rightarrow> bool" where
  "visited N k l a b = (1 \<le> b \<and> b \<le> N \<and> 1 \<le> a \<and> (a < k \<or> (a = k \<and> b < l)))"

subsection \<open>The advector's traced point\<close>

text \<open>
  The traced coordinate of one axis after the two clamping tests of \<open>advect\<close>, and the
  interpolation it feeds, as \<open>advect_cell\<close> computes them.
\<close>

definition backtrace :: "int \<Rightarrow> int \<Rightarrow> real \<Rightarrow> real" where
  "backtrace N i w =
     (let p = real_of_int i - dt * w * real_of_int N;
          p = (if p < 0.5 then 0.5 else p);
          p = (if p > real_of_int N + 0.5 then real_of_int N + 0.5 else p)
      in p)"

definition bilinear :: "int \<Rightarrow> field \<Rightarrow> real \<Rightarrow> real \<Rightarrow> real" where
  "bilinear N x_0 p_x p_y =
     (let i0 = \<lfloor>p_x\<rfloor>; i1 = i0 + 1; j0 = \<lfloor>p_y\<rfloor>; j1 = j0 + 1;
          s1 = p_x - real_of_int i0; s0 = 1 - s1;
          t1 = p_y - real_of_int j0; t0 = 1 - t1
      in s0 * (t0 * cell N x_0 i0 j0 + t1 * cell N x_0 i0 j1) +
         s1 * (t0 * cell N x_0 i1 j0 + t1 * cell N x_0 i1 j1))"

subsection \<open>The diffuser and the advector in the words of the specification\<close>

text \<open>
  One relaxation of a cell by the single formula
  \<open>out[i,j] = (in[i,j] + a * (out[i-1,j] + out[i+1,j] + out[i,j-1] + out[i,j+1])) / (1 + 4a)\<close>;
  a sweep over the interior, \<open>i\<close> outer and \<open>j\<close> inner, followed by the boundary
  enforcer; four sweeps with \<open>a = dt * rate / h\<^sup>2\<close>, \<open>h = 1 / N\<close>. Then the value the advector
  assigns to an interior cell: the bilinear interpolation of the input at the
  backward-traced point, each coordinate clamped to \<open>[0.5, N + 0.5]\<close> by \<open>clamp\<close>.
\<close>

definition relax_cell_spec :: "int \<Rightarrow> real \<Rightarrow> field \<Rightarrow> int \<Rightarrow> int \<Rightarrow> field \<Rightarrow> field option" where
  "relax_cell_spec N a inp i j out = do {
     c \<leftarrow> rd inp (index N i j);
     w \<leftarrow> rd out (index N (i - 1) j);
     e \<leftarrow> rd out (index N (i + 1) j);
     s \<leftarrow> rd out (index N i (j - 1));
     n \<leftarrow> rd out (index N i (j + 1));
     wr out (index N i j) ((c + a * (w + e + s + n)) / (1 + 4 * a))
   }"

definition sweep_spec :: "int \<Rightarrow> real \<Rightarrow> field \<Rightarrow> string \<Rightarrow> field \<Rightarrow> field option" where
  "sweep_spec N a inp policy out = do {
     out \<leftarrow> for_loop [1..N] (\<lambda>i. for_loop [1..N] (\<lambda>j. relax_cell_spec N a inp i j)) out;
     setBoundary N out policy
   }"

definition diffuse_spec :: "int \<Rightarrow> field \<Rightarrow> field \<Rightarrow> string \<Rightarrow> real \<Rightarrow> real \<Rightarrow> field option" where
  "diffuse_spec N out inp policy rate dt' =
     (let h = 1 / real_of_int N; a = dt' * rate / h\<^sup>2
      in do {
        out \<leftarrow> sweep_spec N a inp policy out;
        out \<leftarrow> sweep_spec N a inp policy out;
        out \<leftarrow> sweep_spec N a inp policy out;
        sweep_spec N a inp policy out
      })"

definition advect_value :: "int \<Rightarrow> field \<Rightarrow> field \<Rightarrow> field \<Rightarrow> int \<Rightarrow> int \<Rightarrow> real" where
  "advect_value N inp velX velY i j =
     (let p_x = clamp (real_of_int i - dt * cell N velX i j * real_of_int N) 0.5 (real_of_int N + 0.5);
          p_y = clamp (real_of_int j - dt * cell N velY i j * real_of_int N) 0.5 (real_of_int N + 0.5);
          i0 = \<lfloor>p_x\<rfloor>; i1 = i0 + 1;
          j0 = \<lfloor>p_y\<rfloor>; j1 = j0 + 1;
          s1 = p_x - real_of_int i0; s0 = 1 - s1;
          t1 = p_y - real_of_int j0; t0 = 1 - t1
      in s0 * (t0 * cell N inp i0 j0 + t1 * cell N inp i0 j1) +
         s1 * (t0 * cell N inp i1 j0 + t1 * cell N inp i1 j1))"

subsection \<open>One tick in the words of the specification\<close>

text \<open>
  The six steps in their stated order: inject the three sources; swap and diffuse the
  velocity; project; swap and advect the velocity, transported by its pre-swap value;
  project; swap and diffuse, swap and advect the density along the final velocity. A swap
  renames the two buffers of a pair. The projector's scratch buffers are the two
  previous-velocity buffers.
\<close>

definition step_spec :: "int \<Rightarrow> state \<Rightarrow> state option" where
  "step_spec N s = do {
     velX \<leftarrow> addSource N (u s) (uSource s);
     velY \<leftarrow> addSource N (v s) (vSource s);
     density \<leftarrow> addSource N (d s) (dSource s);
     let (velX, velXPrev) = (uPrev s, velX);
     let (velY, velYPrev) = (vPrev s, velY);
     velX \<leftarrow> diffuse N velX velXPrev ''left_right_walls'';
     velY \<leftarrow> diffuse N velY velYPrev ''top_bottom_walls'';
     (velX, velY, velXPrev, velYPrev) \<leftarrow> project N velX velY velXPrev velYPrev;
     let (velX, velXPrev) = (velXPrev, velX);
     let (velY, velYPrev) = (velYPrev, velY);
     velX \<leftarrow> advect N velX velXPrev velXPrev velYPrev ''left_right_walls'';
     velY \<leftarrow> advect N velY velYPrev velXPrev velYPrev ''top_bottom_walls'';
     (velX, velY, velXPrev, velYPrev) \<leftarrow> project N velX velY velXPrev velYPrev;
     let (density, densityPrev) = (dPrev s, density);
     density \<leftarrow> diffuse N density densityPrev ''continuous'';
     let (density, densityPrev) = (densityPrev, density);
     density \<leftarrow> advect N density densityPrev velX velY ''continuous'';
     Some \<lparr>u = velX, v = velY, d = density,
           uPrev = velXPrev, vPrev = velYPrev, dPrev = densityPrev,
           dSource = dSource s, uSource = uSource s, vSource = vSource s\<rparr>
   }"

subsection \<open>States\<close>

text \<open>
  The state the session starts from, every buffer zero-filled; the states all of whose
  nine buffers have \<open>(N + 2)\<^sup>2\<close> cells; and one such state at \<open>N = 1\<close>.
\<close>

definition zero_state :: "int \<Rightarrow> state" where
  "zero_state N =
     \<lparr>u = zeros N, v = zeros N, d = zeros N,
      uPrev = zeros N, vPrev = zeros N, dPrev = zeros N,
      dSource = zeros N, uSource = zeros N, vSource = zeros N\<rparr>"

definition state_ok :: "int \<Rightarrow> state \<Rightarrow> bool" where
  "state_ok N s =
     (well_sized N (u s) \<and> well_sized N (v s) \<and> well_sized N (d s) \<and>
      well_sized N (uPrev s) \<and> well_sized N (vPrev s) \<and> well_sized N (dPrev s) \<and>
      well_sized N (dSource s) \<and> well_sized N (uSource s) \<and> well_sized N (vSource s))"

definition demo_state :: state where
  "demo_state =
     \<lparr>u = [0, 0, 0, - 1, 1, - 1, 0, 0, 0], v = [0, - 2, 0, 2, 2, 2, 0, - 2, 0],
      d = [3, 3, 3, 3, 3, 3, 3, 3, 3],
      uPrev = [1, 2, 3, 4, 5, 6, 7, 8, 9], vPrev = [9, 8, 7, 6, 5, 4, 3, 2, 1],
      dPrev = [0, 1, 0, 1, 0, 1, 0, 1, 0],
      dSource = [0, 0, 0, 0, 1000, 0, 0, 0, 0], uSource = [0, 500, 0, 500, 500, 500, 0, 500, 0],
      vSource = [0, - 500, 0, - 500, - 500, - 500, 0, - 500, 0]\<rparr>"

subsection \<open>Divergence\<close>

text \<open>
  The discrete divergence of a velocity at a cell, by the expression \<open>project\<close> stores
  into \<open>div\<close>; that divergence recomputed from the velocity \<open>project\<close> returns (\<open>None\<close> if
  it returns none); and the wall conditions \<open>setBoundary\<close> establishes on \<open>u\<close> and \<open>v\<close>.
\<close>

definition divergence :: "int \<Rightarrow> field \<Rightarrow> field \<Rightarrow> int \<Rightarrow> int \<Rightarrow> real" where
  "divergence N U V i j =
     (let h = 1.0 / real_of_int N
      in ((cell N U (i + 1) j - cell N U (i - 1) j) / (- 2)) * h +
         ((cell N V i (j + 1) - cell N V i (j - 1)) / (- 2)) * h)"

definition divergence_after_project ::
  "int \<Rightarrow> field \<Rightarrow> field \<Rightarrow> field \<Rightarrow> field \<Rightarrow> int \<Rightarrow> int \<Rightarrow> real option" where
  "divergence_after_project N U V P D i j =
     map_option (\<lambda>(U', V', P', D'). divergence N U' V' i j) (project N U V P D)"

definition walls_ok :: "int \<Rightarrow> field \<Rightarrow> field \<Rightarrow> bool" where
  "walls_ok N U V =
     (\<forall>k. 1 \<le> k \<and> k \<le> N \<longrightarrow>
        cell N U 0 k = - cell N U 1 k \<and> cell N U (N + 1) k = - cell N U N k \<and>
        cell N V k 0 = - cell N V k 1 \<and> cell N V k (N + 1) = - cell N V k N)"

text \<open>
  For the pressure sweeps: \<open>cl\<close> clamps a coordinate into the interior; \<open>far N k a b\<close>
  says that cell \<open>(a, b)\<close> is at least \<open>k\<close> steps from the cells \<open>(N - 1, N)\<close> and
  \<open>(N, N)\<close>; \<open>wave N e k p\<close> describes a pressure that vanishes that far out and holds
  \<open>e / 4\<^sup>k\<close> in cell \<open>(N - k, N)\<close>; \<open>jet N c\<close> is the field that is \<open>c\<close> in cell \<open>(N, N)\<close>,
  with the ghost cells \<open>setBoundary\<close> gives it under \<^verbatim>\<open>left_right_walls\<close>, and zero elsewhere.
\<close>

definition cl :: "int \<Rightarrow> int \<Rightarrow> int" where
  "cl N a = max 1 (min N a)"

definition far :: "int \<Rightarrow> int \<Rightarrow> int \<Rightarrow> int \<Rightarrow> bool" where
  "far N k a b = (k \<le> (N - 1 - cl (N - 1) a) + (N - cl N b))"

definition wave :: "int \<Rightarrow> real \<Rightarrow> int \<Rightarrow> field \<Rightarrow> bool" where
  "wave N e k p =
     (well_sized N p \<and>
      (\<forall>a b. in_grid N a b \<and> far N k a b \<longrightarrow> cell N p a b = 0) \<and>
      (1 \<le> k \<longrightarrow> cell N p (N - k) N = e / 4 ^ nat k))"

definition jet :: "int \<Rightarrow> real \<Rightarrow> field" where
  "jet N c = upd N (upd N (upd N (zeros N) N N c) (N + 1) N (- c)) N (N + 1) c"

text \<open>
  Bounds on a velocity: \<open>divergence_within N U V Dm\<close> says that the divergence of
  \<open>(U, V)\<close> is within \<open>Dm\<close> of zero at every interior cell, and \<open>walls_within N U V W\<close> that
  each ghost edge cell of \<open>U\<close> on the left and right walls, and of \<open>V\<close> on the top and bottom
  walls, is within \<open>W\<close> of the negated interior cell beside it.
\<close>

definition divergence_within :: "int \<Rightarrow> field \<Rightarrow> field \<Rightarrow> real \<Rightarrow> bool" where
  "divergence_within N U V Dm =
     (\<forall>i \<in> set [1..N]. \<forall>j \<in> set [1..N]. \<bar>divergence N U V i j\<bar> \<le> Dm)"

definition walls_within :: "int \<Rightarrow> field \<Rightarrow> field \<Rightarrow> real \<Rightarrow> bool" where
  "walls_within N U V W =
     (\<forall>k \<in> set [1..N].
        \<bar>cell N U 0 k + cell N U 1 k\<bar> \<le> W \<and> \<bar>cell N U (N + 1) k + cell N U N k\<bar> \<le> W \<and>
        \<bar>cell N V k 0 + cell N V k 1\<bar> \<le> W \<and> \<bar>cell N V k (N + 1) + cell N V k N\<bar> \<le> W)"

subsection \<open>Buffers of JavaScript numbers\<close>

text \<open>
  A buffer of JavaScript numbers of the right length, its cell \<open>(i, j)\<close> read and replaced
  through \<open>index\<close>, and the buffer of zeros; \<open>velocity_defined\<close> says that no interior cell of
  the two velocity buffers is \<^verbatim>\<open>NaN\<close>; \<open>backtrace_js\<close> is the traced coordinate of one axis
  after the two clamping tests, as \<open>advect_cell_js\<close> computes it.
\<close>

definition well_sized_js :: "int \<Rightarrow> jsfield \<Rightarrow> bool" where
  "well_sized_js N x = (int (length x) = size_grid N)"

definition cell_js :: "int \<Rightarrow> jsfield \<Rightarrow> int \<Rightarrow> int \<Rightarrow> jsnum" where
  "cell_js N x i j = x ! nat (index N i j)"

definition upd_js :: "int \<Rightarrow> jsfield \<Rightarrow> int \<Rightarrow> int \<Rightarrow> jsnum \<Rightarrow> jsfield" where
  "upd_js N x i j val = x[nat (index N i j) := val]"

definition zeros_js :: "int \<Rightarrow> jsfield" where
  "zeros_js N = replicate (nat (size_grid N)) (Fin 0)"

definition velocity_defined :: "int \<Rightarrow> jsfield \<Rightarrow> jsfield \<Rightarrow> bool" where
  "velocity_defined N u_0 v_0 =
     (\<forall>i \<in> set [1..N]. \<forall>j \<in> set [1..N]. cell_js N u_0 i j \<noteq> NaN \<and> cell_js N v_0 i j \<noteq> NaN)"

definition backtrace_js :: "int \<Rightarrow> int \<Rightarrow> jsnum \<Rightarrow> jsnum" where
  "backtrace_js N i w =
     (let p = js_sub (Fin (real_of_int i)) (js_mul (js_mul (Fin dt) w) (Fin (real_of_int N)));
          p = (if js_less p (Fin 0.5) then Fin 0.5 else p);
          p = (if js_less (Fin (real_of_int N + 0.5)) p then Fin (real_of_int N + 0.5) else p)
      in p)"

section \<open>Indexing and single-cell access\<close>

lemma index_bounds:
  assumes "in_grid N i j"
  shows "0 \<le> index N i j" and "index N i j < size_grid N"
proof -
  from assms have b: "0 \<le> i" "i \<le> N + 1" "0 \<le> j" "j \<le> N + 1" "0 \<le> N + 2"
    by (auto simp: in_grid_def)
  have "0 \<le> (N + 2) * j" using b by simp
  then show "0 \<le> index N i j" using b by (simp add: index_def)
  have "(N + 2) * j \<le> (N + 2) * (N + 1)" using b by (intro mult_left_mono) auto
  then show "index N i j < size_grid N" using b
    by (simp add: index_def size_grid_def algebra_simps)
qed

lemma index_inj:
  assumes "in_grid N i j" "in_grid N a b" "index N i j = index N a b"
  shows "i = a \<and> j = b"
proof -
  from assms have b: "0 \<le> i" "i < N + 2" "0 \<le> a" "a < N + 2"
    by (auto simp: in_grid_def)
  have "index N i j mod (N + 2) = i" "index N a b mod (N + 2) = a"
    using b by (simp_all add: index_def)
  with assms(3) have "i = a" by simp
  moreover have "index N i j div (N + 2) = j" "index N a b div (N + 2) = b"
    using b by (simp_all add: index_def)
  with assms(3) have "j = b" by simp
  ultimately show ?thesis by simp
qed

lemma index_surj:
  assumes "0 < N + 2" "0 \<le> k" "k < size_grid N"
  shows "\<exists>i j. in_grid N i j \<and> k = index N i j"
proof (intro exI conjI)
  show "k = index N (k mod (N + 2)) (k div (N + 2))"
    by (simp add: index_def)
  have "k div (N + 2) < N + 2"
  proof (rule ccontr)
    assume "\<not> k div (N + 2) < N + 2"
    then have "(N + 2) * (N + 2) \<le> (N + 2) * (k div (N + 2))"
      using assms(1) by (intro mult_left_mono) auto
    moreover have "0 \<le> k mod (N + 2)" using assms(1) by simp
    moreover have "(N + 2) * (k div (N + 2)) + k mod (N + 2) = k" by simp
    ultimately show False using assms(3) unfolding size_grid_def by linarith
  qed
  moreover have "0 \<le> k div (N + 2)" using assms by (simp add: pos_imp_zdiv_nonneg_iff)
  moreover have "0 \<le> k mod (N + 2)" "k mod (N + 2) < N + 2" using assms by simp_all
  ultimately show "in_grid N (k mod (N + 2)) (k div (N + 2))"
    unfolding in_grid_def by linarith
qed

lemma rd_cell:
  "well_sized N x \<Longrightarrow> in_grid N i j \<Longrightarrow> rd x (index N i j) = Some (cell N x i j)"
  using index_bounds [of N i j] by (simp add: rd_def well_sized_def cell_def)

lemma wr_cell:
  "well_sized N x \<Longrightarrow> in_grid N i j \<Longrightarrow> wr x (index N i j) val = Some (upd N x i j val)"
  using index_bounds [of N i j] by (simp add: wr_def well_sized_def upd_def)

lemma well_sized_upd [simp]: "well_sized N (upd N x i j val) = well_sized N x"
  by (simp add: well_sized_def upd_def)

lemma cell_upd:
  assumes "well_sized N x" "in_grid N i j" "in_grid N a b"
  shows "cell N (upd N x i j val) a b = (if a = i \<and> b = j then val else cell N x a b)"
proof (cases "a = i \<and> b = j")
  case True
  then show ?thesis using assms index_bounds [of N i j]
    by (simp add: cell_def upd_def well_sized_def)
next
  case False
  then have "index N i j \<noteq> index N a b" using index_inj [OF assms(2,3)] by auto
  moreover have "0 \<le> index N i j" "0 \<le> index N a b"
    using assms index_bounds by auto
  ultimately have "nat (index N i j) \<noteq> nat (index N a b)" by simp
  then show ?thesis using False by (auto simp: cell_def upd_def)
qed

lemma field_eqI:
  assumes "0 < N + 2" "well_sized N x" "well_sized N y"
    and "\<And>i j. in_grid N i j \<Longrightarrow> cell N x i j = cell N y i j"
  shows "x = y"
proof (rule nth_equalityI)
  show "length x = length y" using assms(2,3) by (simp add: well_sized_def)
next
  fix n assume n: "n < length x"
  then have "0 \<le> int n" "int n < size_grid N" using assms(2) by (auto simp: well_sized_def)
  from index_surj [OF assms(1) this] obtain i j where ij: "in_grid N i j" "int n = index N i j"
    by blast
  from assms(4) [OF ij(1)] show "x ! n = y ! n"
    by (simp add: cell_def ij(2) [symmetric])
qed

subsection \<open>A loop rule with a counter-indexed invariant\<close>

lemma for_loop_upto_rule:
  assumes "lo \<le> hi + 1" and "I lo x"
    and "\<And>i y. lo \<le> i \<Longrightarrow> i \<le> hi \<Longrightarrow> I i y \<Longrightarrow> \<exists>y'. body i y = Some y' \<and> I (i + 1) y'"
  shows "\<exists>x'. for_loop [lo..hi] body x = Some x' \<and> I (hi + 1) x'"
  using assms
proof (induction lo hi arbitrary: x rule: upto.induct)
  case (1 i j)
  show ?case
  proof (cases "i \<le> j")
    case False
    with "1.prems"(1) have "i = j + 1" by simp
    with "1.prems"(2) False show ?thesis by simp
  next
    case True
    from "1.prems"(3) [of i x] True "1.prems"(2)
    obtain y where y: "body i x = Some y" "I (i + 1) y" by auto
    have "\<exists>x'. for_loop [i + 1..j] body y = Some x' \<and> I (j + 1) x'"
      using True y(2) "1.prems"(3) by (intro "1.IH") auto
    then show ?thesis using True y(1) by (simp add: upto_rec1 [of i j])
  qed
qed

section \<open>setBoundary\<close>

lemma setBoundary_row_eq:
  assumes "1 \<le> N" "well_sized N y" "1 \<le> i" "i \<le> N"
  shows "setBoundary_row N bt i y =
    Some (upd N (upd N y i 0 (row_sign bt * cell N y i 1)) i (N + 1) (row_sign bt * cell N y i N))"
  using assms
  by (simp add: setBoundary_row_def rd_cell wr_cell cell_upd in_grid_def row_sign_def)

lemma setBoundary_col_eq:
  assumes "1 \<le> N" "well_sized N y" "1 \<le> j" "j \<le> N"
  shows "setBoundary_col N bt j y =
    Some (upd N (upd N y 0 j (col_sign bt * cell N y 1 j)) (N + 1) j (col_sign bt * cell N y N j))"
  using assms
  by (simp add: setBoundary_col_def rd_cell wr_cell cell_upd in_grid_def col_sign_def)

lemma setBoundary_rows:
  assumes "1 \<le> N" "well_sized N x"
  shows "\<exists>y. for_loop [1..N] (setBoundary_row N bt) x = Some y \<and> well_sized N y \<and>
           (\<forall>a b. in_grid N a b \<longrightarrow> cell N y a b = rows_done N bt x (N + 1) a b)"
proof (rule for_loop_upto_rule
    [where I = "\<lambda>k y. well_sized N y \<and> (\<forall>a b. in_grid N a b \<longrightarrow> cell N y a b = rows_done N bt x k a b)"])
  show "1 \<le> N + 1" using assms by simp
  show "well_sized N x \<and> (\<forall>a b. in_grid N a b \<longrightarrow> cell N x a b = rows_done N bt x 1 a b)"
    using assms by (simp add: rows_done_def)
next
  fix i y
  assume i: "1 \<le> i" "i \<le> N"
    and inv: "well_sized N y \<and> (\<forall>a b. in_grid N a b \<longrightarrow> cell N y a b = rows_done N bt x i a b)"
  have c1: "cell N y i 1 = cell N x i 1" and cN: "cell N y i N = cell N x i N"
    using inv i assms(1) by (simp_all add: in_grid_def rows_done_def)
  let ?y' = "upd N (upd N y i 0 (row_sign bt * cell N y i 1)) i (N + 1) (row_sign bt * cell N y i N)"
  have "setBoundary_row N bt i y = Some ?y'"
    using setBoundary_row_eq [OF assms(1) _ i] inv by simp
  moreover have "well_sized N ?y'" using inv by simp
  moreover have "cell N ?y' a b = rows_done N bt x (i + 1) a b" if "in_grid N a b" for a b
    using that inv i assms(1) c1 cN
    by (auto simp: cell_upd in_grid_def rows_done_def)
  ultimately show "\<exists>y'. setBoundary_row N bt i y = Some y' \<and>
      (well_sized N y' \<and> (\<forall>a b. in_grid N a b \<longrightarrow> cell N y' a b = rows_done N bt x (i + 1) a b))"
    by blast
qed

lemma setBoundary_cols:
  assumes "1 \<le> N" "well_sized N x"
  shows "\<exists>y. for_loop [1..N] (setBoundary_col N bt) x = Some y \<and> well_sized N y \<and>
           (\<forall>a b. in_grid N a b \<longrightarrow> cell N y a b = cols_done N bt x (N + 1) a b)"
proof (rule for_loop_upto_rule
    [where I = "\<lambda>k y. well_sized N y \<and> (\<forall>a b. in_grid N a b \<longrightarrow> cell N y a b = cols_done N bt x k a b)"])
  show "1 \<le> N + 1" using assms by simp
  show "well_sized N x \<and> (\<forall>a b. in_grid N a b \<longrightarrow> cell N x a b = cols_done N bt x 1 a b)"
    using assms by (simp add: cols_done_def)
next
  fix j y
  assume j: "1 \<le> j" "j \<le> N"
    and inv: "well_sized N y \<and> (\<forall>a b. in_grid N a b \<longrightarrow> cell N y a b = cols_done N bt x j a b)"
  have c1: "cell N y 1 j = cell N x 1 j" and cN: "cell N y N j = cell N x N j"
    using inv j assms(1) by (simp_all add: in_grid_def cols_done_def)
  let ?y' = "upd N (upd N y 0 j (col_sign bt * cell N y 1 j)) (N + 1) j (col_sign bt * cell N y N j)"
  have "setBoundary_col N bt j y = Some ?y'"
    using setBoundary_col_eq [OF assms(1) _ j] inv by simp
  moreover have "well_sized N ?y'" using inv by simp
  moreover have "cell N ?y' a b = cols_done N bt x (j + 1) a b" if "in_grid N a b" for a b
    using that inv j assms(1) c1 cN
    by (auto simp: cell_upd in_grid_def cols_done_def)
  ultimately show "\<exists>y'. setBoundary_col N bt j y = Some y' \<and>
      (well_sized N y' \<and> (\<forall>a b. in_grid N a b \<longrightarrow> cell N y' a b = cols_done N bt x (j + 1) a b))"
    by blast
qed

lemma setBoundary_corners_eq:
  assumes "1 \<le> N" "well_sized N y"
  shows "\<exists>z. setBoundary_corners N y = Some z \<and> well_sized N z \<and>
     (\<forall>a b. in_grid N a b \<longrightarrow> cell N z a b =
        (if a = 0 \<and> b = 0 then 0.5 * (cell N y 0 1 + cell N y 1 0)
         else if a = N + 1 \<and> b = 0 then 0.5 * (cell N y (N + 1) 1 + cell N y N 0)
         else if a = 0 \<and> b = N + 1 then 0.5 * (cell N y 0 N + cell N y 1 (N + 1))
         else if a = N + 1 \<and> b = N + 1 then 0.5 * (cell N y (N + 1) N + cell N y N (N + 1))
         else cell N y a b))"
  using assms
  by (simp add: setBoundary_corners_def rd_cell wr_cell cell_upd in_grid_def)

lemma setBoundary_cells:
  assumes "1 \<le> N" "well_sized N x"
  shows "\<exists>z. setBoundary N x bt = Some z \<and> well_sized N z \<and>
           (\<forall>a b. in_grid N a b \<longrightarrow> cell N z a b = bnd N bt x a b)"
proof -
  from setBoundary_rows [OF assms, of bt] obtain y1 where
    y1: "for_loop [1..N] (setBoundary_row N bt) x = Some y1" "well_sized N y1"
      "\<And>a b. in_grid N a b \<Longrightarrow> cell N y1 a b = rows_done N bt x (N + 1) a b"
    by blast
  from setBoundary_cols [OF assms(1) y1(2), of bt] obtain y2 where
    y2: "for_loop [1..N] (setBoundary_col N bt) y1 = Some y2" "well_sized N y2"
      "\<And>a b. in_grid N a b \<Longrightarrow> cell N y2 a b = cols_done N bt y1 (N + 1) a b"
    by blast
  from setBoundary_corners_eq [OF assms(1) y2(2)] obtain z where
    z: "setBoundary_corners N y2 = Some z" "well_sized N z"
      "\<And>a b. in_grid N a b \<Longrightarrow> cell N z a b =
        (if a = 0 \<and> b = 0 then 0.5 * (cell N y2 0 1 + cell N y2 1 0)
         else if a = N + 1 \<and> b = 0 then 0.5 * (cell N y2 (N + 1) 1 + cell N y2 N 0)
         else if a = 0 \<and> b = N + 1 then 0.5 * (cell N y2 0 N + cell N y2 1 (N + 1))
         else if a = N + 1 \<and> b = N + 1 then 0.5 * (cell N y2 (N + 1) N + cell N y2 N (N + 1))
         else cell N y2 a b)"
    by blast
  have e: "cell N y2 a b = edge_value N bt x a b" if "in_grid N a b" for a b
    using that assms(1) y2(3) [OF that] y1(3) [of a b] y1(3) [of 1 b] y1(3) [of N b]
    by (auto simp: cols_done_def rows_done_def edge_value_def in_grid_def)
  have "cell N z a b = bnd N bt x a b" if "in_grid N a b" for a b
    using that assms(1) z(3) [OF that]
      e [of a b] e [of 0 1] e [of 1 0] e [of "N + 1" 1] e [of N 0]
      e [of 0 N] e [of 1 "N + 1"] e [of "N + 1" N] e [of N "N + 1"]
    by (simp add: bnd_def in_grid_def)
  then show ?thesis using y1(1) y2(1) z(1,2) by (simp add: setBoundary_def)
qed

lemma bnd_interior:
  "1 \<le> N \<Longrightarrow> interior N a b \<Longrightarrow> bnd N bt x a b = cell N x a b"
  by (simp add: bnd_def edge_value_def interior_def)

lemma grid_cases:
  assumes "in_grid N a b"
  shows "interior N a b \<or> on_edge N a b \<or> is_corner N a b"
  using assms unfolding in_grid_def interior_def on_edge_def is_corner_def by linarith

lemma bnd_edge: "1 \<le> N \<Longrightarrow> on_edge N a b \<Longrightarrow> bnd N bt x a b = edge_value N bt x a b"
  unfolding on_edge_def bnd_def by (elim disjE conjE) simp_all

lemma edge_value_cong:
  assumes "1 \<le> N" "\<And>i j. interior N i j \<Longrightarrow> cell N x i j = cell N y i j"
    and "on_edge N a b"
  shows "edge_value N bt x a b = edge_value N bt y a b"
proof -
  have r: "cell N x a 1 = cell N y a 1" "cell N x a N = cell N y a N" if "1 \<le> a" "a \<le> N"
    using that assms(1) by (simp_all add: assms(2) interior_def)
  have c: "cell N x 1 b = cell N y 1 b" "cell N x N b = cell N y N b" if "1 \<le> b" "b \<le> N"
    using that assms(1) by (simp_all add: assms(2) interior_def)
  from assms(3) show ?thesis
    unfolding on_edge_def
  proof (elim disjE conjE)
    assume "1 \<le> a" "a \<le> N" "b = 0"
    then show ?thesis using r by (simp add: edge_value_def)
  next
    assume "1 \<le> a" "a \<le> N" "b = N + 1"
    then show ?thesis using r assms(1) by (simp add: edge_value_def)
  next
    assume "a = 0" "1 \<le> b" "b \<le> N"
    then show ?thesis using c assms(1) by (simp add: edge_value_def)
  next
    assume "a = N + 1" "1 \<le> b" "b \<le> N"
    then show ?thesis using c assms(1) by (simp add: edge_value_def)
  qed
qed

lemma bnd_cong:
  assumes "1 \<le> N" "\<And>i j. interior N i j \<Longrightarrow> cell N x i j = cell N y i j"
    and "in_grid N a b" "\<not> interior N a b"
  shows "bnd N bt x a b = bnd N bt y a b"
proof -
  have e: "edge_value N bt x a' b' = edge_value N bt y a' b'" if "on_edge N a' b'" for a' b'
    using assms(1,2) that by (rule edge_value_cong)
  from grid_cases [OF assms(3)] assms(4) have "on_edge N a b \<or> is_corner N a b" by simp
  then show ?thesis
  proof
    assume "on_edge N a b"
    then show ?thesis using assms(1) by (simp add: bnd_edge e)
  next
    have o: "on_edge N 0 1" "on_edge N 1 0" "on_edge N (N + 1) 1" "on_edge N N 0"
      "on_edge N 0 N" "on_edge N 1 (N + 1)" "on_edge N (N + 1) N" "on_edge N N (N + 1)"
      using assms(1) by (simp_all add: on_edge_def)
    assume "is_corner N a b"
    then show ?thesis using assms(1) unfolding bnd_def is_corner_def
      by (elim conjE disjE) (simp_all add: o [THEN e])
  qed
qed

text \<open>
  Claim C6 (boundary mirroring and negation). On a buffer of \<open>(N + 2)\<^sup>2\<close> cells,
  \<open>setBoundary\<close> succeeds and, for every \<open>i\<close> in \<open>[1, N]\<close>, the top and bottom ghost
  cells of column \<open>i\<close> equal the adjacent interior cells under \<^verbatim>\<open>continuous\<close> and
  \<^verbatim>\<open>left_right_walls\<close> and their negations under \<^verbatim>\<open>top_bottom_walls\<close>; the left and
  right ghost cells of row \<open>i\<close> equal the adjacent interior cells under \<^verbatim>\<open>continuous\<close>
  and \<^verbatim>\<open>top_bottom_walls\<close> and their negations under \<^verbatim>\<open>left_right_walls\<close>.
\<close>

theorem setBoundary_mirrors:
  assumes "1 \<le> N" and "well_sized N x" and "1 \<le> i" and "i \<le> N"
  shows "\<exists>y. setBoundary N x boundaryType = Some y \<and>
    (boundaryType = ''continuous'' \<or> boundaryType = ''left_right_walls'' \<longrightarrow>
       cell N y i 0 = cell N y i 1 \<and> cell N y i (N + 1) = cell N y i N) \<and>
    (boundaryType = ''top_bottom_walls'' \<longrightarrow>
       cell N y i 0 = - cell N y i 1 \<and> cell N y i (N + 1) = - cell N y i N) \<and>
    (boundaryType = ''continuous'' \<or> boundaryType = ''top_bottom_walls'' \<longrightarrow>
       cell N y 0 i = cell N y 1 i \<and> cell N y (N + 1) i = cell N y N i) \<and>
    (boundaryType = ''left_right_walls'' \<longrightarrow>
       cell N y 0 i = - cell N y 1 i \<and> cell N y (N + 1) i = - cell N y N i)"
proof -
  from setBoundary_cells [OF assms(1,2), of boundaryType] obtain y where
    y: "setBoundary N x boundaryType = Some y"
      "\<And>a b. in_grid N a b \<Longrightarrow> cell N y a b = bnd N boundaryType x a b"
    by blast
  have g: "in_grid N i 0" "in_grid N i 1" "in_grid N i (N + 1)" "in_grid N i N"
    "in_grid N 0 i" "in_grid N 1 i" "in_grid N (N + 1) i" "in_grid N N i"
    using assms by (simp_all add: in_grid_def)
  have inner: "bnd N boundaryType x i 1 = cell N x i 1" "bnd N boundaryType x i N = cell N x i N"
    "bnd N boundaryType x 1 i = cell N x 1 i" "bnd N boundaryType x N i = cell N x N i"
    using assms by (simp_all add: bnd_interior interior_def)
  have o: "on_edge N i 0" "on_edge N i (N + 1)" "on_edge N 0 i" "on_edge N (N + 1) i"
    using assms by (simp_all add: on_edge_def)
  have edge: "bnd N boundaryType x i 0 = row_sign boundaryType * cell N x i 1"
    "bnd N boundaryType x i (N + 1) = row_sign boundaryType * cell N x i N"
    "bnd N boundaryType x 0 i = col_sign boundaryType * cell N x 1 i"
    "bnd N boundaryType x (N + 1) i = col_sign boundaryType * cell N x N i"
    using assms by (simp_all add: bnd_edge [OF assms(1) o(1)] bnd_edge [OF assms(1) o(2)]
        bnd_edge [OF assms(1) o(3)] bnd_edge [OF assms(1) o(4)] edge_value_def)
  have "cell N y i 0 = row_sign boundaryType * cell N y i 1"
    "cell N y i (N + 1) = row_sign boundaryType * cell N y i N"
    "cell N y 0 i = col_sign boundaryType * cell N y 1 i"
    "cell N y (N + 1) i = col_sign boundaryType * cell N y N i"
    by (simp_all add: g [THEN y(2)] inner edge)
  then show ?thesis using y(1) by (auto simp: row_sign_def col_sign_def)
qed

theorem setBoundary_mirrors_witness:
  "\<exists>y. setBoundary 2 [1, 2, 3, 4, 5, 6, 7, 8, 9, 10, 11, 12, 13, 14, 15, 16] ''top_bottom_walls'' = Some y \<and>
     cell 2 y 1 0 = - cell 2 y 1 1 \<and> cell 2 y 1 3 = - cell 2 y 1 2 \<and>
     cell 2 y 0 1 = cell 2 y 1 1 \<and> cell 2 y 3 1 = cell 2 y 2 1"
  using setBoundary_mirrors [of 2 "[1, 2, 3, 4, 5, 6, 7, 8, 9, 10, 11, 12, 13, 14, 15, 16]" 1 "''top_bottom_walls''"]
  by (simp add: well_sized_def size_grid_def)

text \<open>
  Claim C7 (corner averaging). After \<open>setBoundary\<close> with any boundary type, each of the
  four corner cells is one half of the sum of its two adjacent edge ghost cells.
\<close>

theorem setBoundary_corner_average:
  assumes "1 \<le> N" and "well_sized N x"
  shows "\<exists>y. setBoundary N x boundaryType = Some y \<and>
    cell N y 0 0 = 0.5 * (cell N y 0 1 + cell N y 1 0) \<and>
    cell N y (N + 1) 0 = 0.5 * (cell N y (N + 1) 1 + cell N y N 0) \<and>
    cell N y 0 (N + 1) = 0.5 * (cell N y 0 N + cell N y 1 (N + 1)) \<and>
    cell N y (N + 1) (N + 1) = 0.5 * (cell N y (N + 1) N + cell N y N (N + 1))"
proof -
  from setBoundary_cells [OF assms, of boundaryType] obtain y where
    y: "setBoundary N x boundaryType = Some y"
      "\<And>a b. in_grid N a b \<Longrightarrow> cell N y a b = bnd N boundaryType x a b"
    by blast
  have g: "in_grid N 0 0" "in_grid N 0 1" "in_grid N 1 0"
    "in_grid N (N + 1) 0" "in_grid N (N + 1) 1" "in_grid N N 0"
    "in_grid N 0 (N + 1)" "in_grid N 0 N" "in_grid N 1 (N + 1)"
    "in_grid N (N + 1) (N + 1)" "in_grid N (N + 1) N" "in_grid N N (N + 1)"
    using assms(1) by (simp_all add: in_grid_def)
  have o: "on_edge N 0 1" "on_edge N 1 0" "on_edge N (N + 1) 1" "on_edge N N 0"
    "on_edge N 0 N" "on_edge N 1 (N + 1)" "on_edge N (N + 1) N" "on_edge N N (N + 1)"
    using assms(1) by (simp_all add: on_edge_def)
  have c: "bnd N boundaryType x 0 0 =
      0.5 * (edge_value N boundaryType x 0 1 + edge_value N boundaryType x 1 0)"
    "bnd N boundaryType x (N + 1) 0 =
      0.5 * (edge_value N boundaryType x (N + 1) 1 + edge_value N boundaryType x N 0)"
    "bnd N boundaryType x 0 (N + 1) =
      0.5 * (edge_value N boundaryType x 0 N + edge_value N boundaryType x 1 (N + 1))"
    "bnd N boundaryType x (N + 1) (N + 1) =
      0.5 * (edge_value N boundaryType x (N + 1) N + edge_value N boundaryType x N (N + 1))"
    using assms(1) by (simp_all add: bnd_def)
  show ?thesis
    by (rule exI [of _ y]) (simp add: y(1) g [THEN y(2)] c o [THEN bnd_edge [OF assms(1)]])
qed

theorem setBoundary_corner_average_witness:
  "\<exists>y. setBoundary 1 [1, 2, 3, 4, 5, 6, 7, 8, 9] ''left_right_walls'' = Some y \<and>
    cell 1 y 0 0 = 0.5 * (cell 1 y 0 1 + cell 1 y 1 0) \<and>
    cell 1 y 2 0 = 0.5 * (cell 1 y 2 1 + cell 1 y 1 0) \<and>
    cell 1 y 0 2 = 0.5 * (cell 1 y 0 1 + cell 1 y 1 2) \<and>
    cell 1 y 2 2 = 0.5 * (cell 1 y 2 1 + cell 1 y 1 2)"
  using setBoundary_corner_average [of 1 "[1, 2, 3, 4, 5, 6, 7, 8, 9]" "''left_right_walls''"]
  by (simp add: well_sized_def size_grid_def)

text \<open>
  Claim C10 (frame). \<open>setBoundary\<close> keeps the buffer's length and every interior cell,
  and applying it a second time with the same boundary type changes nothing.
\<close>

theorem setBoundary_frame:
  assumes "1 \<le> N" and "well_sized N x"
  shows "\<exists>y. setBoundary N x boundaryType = Some y \<and> length y = length x \<and>
    (\<forall>i j. 1 \<le> i \<and> i \<le> N \<and> 1 \<le> j \<and> j \<le> N \<longrightarrow> cell N y i j = cell N x i j) \<and>
    setBoundary N y boundaryType = Some y"
proof -
  from setBoundary_cells [OF assms, of boundaryType] obtain y where
    y: "setBoundary N x boundaryType = Some y" "well_sized N y"
      "\<And>a b. in_grid N a b \<Longrightarrow> cell N y a b = bnd N boundaryType x a b"
    by blast
  from setBoundary_cells [OF assms(1) y(2), of boundaryType] obtain z where
    z: "setBoundary N y boundaryType = Some z" "well_sized N z"
      "\<And>a b. in_grid N a b \<Longrightarrow> cell N z a b = bnd N boundaryType y a b"
    by blast
  have inner: "cell N y i j = cell N x i j" if "interior N i j" for i j
  proof -
    have "in_grid N i j" using that by (simp add: interior_def in_grid_def)
    then show ?thesis using y(3) bnd_interior [OF assms(1) that] by simp
  qed
  have "cell N z a b = cell N y a b" if ab: "in_grid N a b" for a b
  proof (cases "interior N a b")
    case True
    then show ?thesis using z(3) [OF ab] bnd_interior [OF assms(1) True] by simp
  next
    case False
    have "bnd N boundaryType y a b = bnd N boundaryType x a b"
      using assms(1) inner ab False by (rule bnd_cong)
    then show ?thesis using z(3) [OF ab] y(3) [OF ab] by simp
  qed
  then have "z = y" using assms(1) z(2) y(2) by (intro field_eqI [of N]) auto
  moreover have "length y = length x" using y(2) assms(2) by (simp add: well_sized_def)
  ultimately show ?thesis using y(1) z(1) inner by (auto simp: interior_def)
qed

theorem setBoundary_frame_witness:
  "\<exists>y. setBoundary 1 [1, 2, 3, 4, 5, 6, 7, 8, 9] ''continuous'' = Some y \<and>
    length y = length [1, 2, 3, 4, 5, 6, 7, 8, 9 :: real] \<and>
    (\<forall>i j. 1 \<le> i \<and> i \<le> 1 \<and> 1 \<le> j \<and> j \<le> 1 \<longrightarrow>
       cell 1 y i j = cell 1 [1, 2, 3, 4, 5, 6, 7, 8, 9] i j) \<and>
    setBoundary 1 y ''continuous'' = Some y"
  using setBoundary_frame [of 1 "[1, 2, 3, 4, 5, 6, 7, 8, 9]" "''continuous''"]
  by (simp add: well_sized_def size_grid_def)

section \<open>Loops that preserve an invariant\<close>

lemma interior_in_grid:
  assumes "interior N i j"
  shows "in_grid N i j" "in_grid N (i - 1) j" "in_grid N (i + 1) j"
    "in_grid N i (j - 1)" "in_grid N i (j + 1)"
  using assms by (simp_all add: interior_def in_grid_def)

lemma for_loop_inv:
  assumes "I x" and "\<And>i y. i \<in> set ks \<Longrightarrow> I y \<Longrightarrow> \<exists>y'. body i y = Some y' \<and> I y'"
  shows "\<exists>x'. for_loop ks body x = Some x' \<and> I x'"
  using assms
proof (induction ks arbitrary: x)
  case Nil
  then show ?case by simp
next
  case (Cons k ks)
  from Cons.prems(2) [of k x] Cons.prems(1) obtain y where y: "body k x = Some y" "I y"
    by auto
  have "\<exists>x'. for_loop ks body y = Some x' \<and> I x'"
    using y(2) Cons.prems(2) by (intro Cons.IH) auto
  then show ?case using y(1) by simp
qed

lemma interior_loop_inv:
  assumes "I x"
    and "\<And>i j y. interior N i j \<Longrightarrow> I y \<Longrightarrow> \<exists>y'. body i j y = Some y' \<and> I y'"
  shows "\<exists>x'. for_loop [1..N] (\<lambda>i. for_loop [1..N] (\<lambda>j. body i j)) x = Some x' \<and> I x'"
proof (rule for_loop_inv [where I = I, OF assms(1)])
  fix i y assume i: "i \<in> set [1..N]" and y: "I y"
  show "\<exists>y'. for_loop [1..N] (body i) y = Some y' \<and> I y'"
  proof (rule for_loop_inv [where I = I, OF y])
    fix j z assume "j \<in> set [1..N]" and "I z"
    then show "\<exists>y'. body i j z = Some y' \<and> I y'"
      using i by (intro assms(2)) (simp_all add: interior_def)
  qed
qed

section \<open>The loop bodies on well-sized buffers\<close>

lemma upd_upd [simp]: "upd N (upd N x i j a) i j b = upd N x i j b"
  by (simp add: upd_def)

lemma diffuse_cell_eq:
  assumes "interior N i j" "well_sized N x" "well_sized N x_0"
  shows "diffuse_cell N a x_0 i j x =
    Some (upd N x i j ((cell N x_0 i j + a * (cell N x (i - 1) j + cell N x (i + 1) j +
            cell N x i (j - 1) + cell N x i (j + 1))) / (1 + 4 * a)))"
  using assms interior_in_grid [OF assms(1)]
  by (simp add: diffuse_cell_def rd_cell wr_cell cell_upd)

lemma pressure_cell_eq:
  assumes "interior N i j" "well_sized N p" "well_sized N dv"
  shows "pressure_cell N dv i j p =
    Some (upd N p i j ((cell N p (i - 1) j + cell N p (i + 1) j + cell N p i (j - 1) +
            cell N p i (j + 1) + cell N dv i j) / 4))"
  using assms interior_in_grid [OF assms(1)]
  by (simp add: pressure_cell_def rd_cell wr_cell)

lemma divergence_cell_eq:
  assumes "interior N i j" "well_sized N dv" "well_sized N U" "well_sized N V"
  shows "divergence_cell N h U V i j dv =
    Some (upd N dv i j (((cell N U (i + 1) j - cell N U (i - 1) j) / (- 2)) * h +
            ((cell N V i (j + 1) - cell N V i (j - 1)) / (- 2)) * h))"
  using assms interior_in_grid [OF assms(1)]
  by (simp add: divergence_cell_def rd_cell wr_cell)

lemma gradient_cell_eq:
  assumes "interior N i j" "well_sized N (fst UV)" "well_sized N (snd UV)" "well_sized N p"
  shows "gradient_cell N h p i j UV =
    Some (upd N (fst UV) i j (cell N (fst UV) i j - (cell N p (i + 1) j - cell N p (i - 1) j) / (2 * h)),
          upd N (snd UV) i j (cell N (snd UV) i j - (cell N p i (j + 1) - cell N p i (j - 1)) / (2 * h)))"
  using assms interior_in_grid [OF assms(1)]
  by (simp add: gradient_cell_def rd_cell wr_cell)

lemma backtrace_range:
  assumes "1 \<le> N"
  shows "0.5 \<le> backtrace N i w" and "backtrace N i w \<le> real_of_int N + 0.5"
  using assms by (auto simp: backtrace_def Let_def)

lemma backtrace_clamp:
  "1 \<le> N \<Longrightarrow> backtrace N i w = clamp (real_of_int i - dt * w * real_of_int N) 0.5 (real_of_int N + 0.5)"
  by (auto simp: backtrace_def clamp_def Let_def max_def min_def)

lemma backtrace_stencil:
  assumes "1 \<le> N"
  shows "0 \<le> \<lfloor>backtrace N i w\<rfloor>" and "\<lfloor>backtrace N i w\<rfloor> + 1 \<le> N + 1"
proof -
  from backtrace_range [OF assms, of i w]
  have r: "0.5 \<le> backtrace N i w" "backtrace N i w \<le> real_of_int N + 0.5" by auto
  from r(1) show "0 \<le> \<lfloor>backtrace N i w\<rfloor>" by (simp add: zero_le_floor)
  have "backtrace N i w < real_of_int (N + 1)" using r(2) by simp
  then have "\<lfloor>backtrace N i w\<rfloor> < N + 1" by (simp only: floor_less_iff)
  then show "\<lfloor>backtrace N i w\<rfloor> + 1 \<le> N + 1" by simp
qed

lemma advect_cell_eq:
  assumes "1 \<le> N" "interior N i j" "well_sized N x" "well_sized N x_0"
    "well_sized N u_0" "well_sized N v_0"
  shows "advect_cell N x_0 u_0 v_0 i j x =
    Some (upd N x i j (bilinear N x_0 (backtrace N i (cell N u_0 i j)) (backtrace N j (cell N v_0 i j))))"
proof -
  let ?px = "backtrace N i (cell N u_0 i j)" and ?py = "backtrace N j (cell N v_0 i j)"
  have g: "in_grid N \<lfloor>?px\<rfloor> \<lfloor>?py\<rfloor>" "in_grid N \<lfloor>?px\<rfloor> (\<lfloor>?py\<rfloor> + 1)"
    "in_grid N (\<lfloor>?px\<rfloor> + 1) \<lfloor>?py\<rfloor>" "in_grid N (\<lfloor>?px\<rfloor> + 1) (\<lfloor>?py\<rfloor> + 1)"
    using backtrace_stencil [OF assms(1), of i "cell N u_0 i j"]
      backtrace_stencil [OF assms(1), of j "cell N v_0 i j"]
    by (simp_all add: in_grid_def)
  have "advect_cell N x_0 u_0 v_0 i j x = do {
      x00 \<leftarrow> rd x_0 (index N \<lfloor>?px\<rfloor> \<lfloor>?py\<rfloor>);
      x01 \<leftarrow> rd x_0 (index N \<lfloor>?px\<rfloor> (\<lfloor>?py\<rfloor> + 1));
      x10 \<leftarrow> rd x_0 (index N (\<lfloor>?px\<rfloor> + 1) \<lfloor>?py\<rfloor>);
      x11 \<leftarrow> rd x_0 (index N (\<lfloor>?px\<rfloor> + 1) (\<lfloor>?py\<rfloor> + 1));
      wr x (index N i j) ((1 - (?px - real_of_int \<lfloor>?px\<rfloor>)) *
           ((1 - (?py - real_of_int \<lfloor>?py\<rfloor>)) * x00 + (?py - real_of_int \<lfloor>?py\<rfloor>) * x01) +
         (?px - real_of_int \<lfloor>?px\<rfloor>) *
           ((1 - (?py - real_of_int \<lfloor>?py\<rfloor>)) * x10 + (?py - real_of_int \<lfloor>?py\<rfloor>) * x11)) }"
    using assms interior_in_grid(1) [OF assms(2)]
    by (simp add: advect_cell_def rd_cell Let_def backtrace_def)
  also have "\<dots> = Some (upd N x i j (bilinear N x_0 ?px ?py))"
    using assms interior_in_grid(1) [OF assms(2)] g
    by (simp add: rd_cell wr_cell bilinear_def Let_def)
  finally show ?thesis .
qed

section \<open>Every access of diffuse, advect and project is in range\<close>

lemma size_grid_nonneg [simp]: "0 \<le> size_grid N"
  by (simp add: size_grid_def)

lemma well_sized_zeros [simp]: "well_sized N (zeros N)"
  by (simp add: well_sized_def zeros_def)

lemma setBoundary_ok:
  assumes "1 \<le> N" "well_sized N x"
  shows "\<exists>y. setBoundary N x bt = Some y \<and> well_sized N y"
  using setBoundary_cells [OF assms, of bt] by blast

lemma zero_fill:
  assumes "well_sized N p"
  shows "for_loop [0..size_grid N - 1] (\<lambda>i p. wr p i 0.0) p = Some (zeros N)"
proof -
  have "\<exists>y. for_loop [0..size_grid N - 1] (\<lambda>i p. wr p i 0.0) p = Some y \<and>
      (length y = length p \<and> (\<forall>n. int n < size_grid N - 1 + 1 \<longrightarrow> y ! n = 0))"
  proof (rule for_loop_upto_rule
      [where I = "\<lambda>k y. length y = length p \<and> (\<forall>n. int n < k \<longrightarrow> y ! n = 0)"])
    show "0 \<le> size_grid N - 1 + 1" by simp
    show "length p = length p \<and> (\<forall>n. int n < 0 \<longrightarrow> p ! n = 0)" by simp
  next
    fix i and y :: field
    assume i: "0 \<le> i" "i \<le> size_grid N - 1"
      and inv: "length y = length p \<and> (\<forall>n. int n < i \<longrightarrow> y ! n = 0)"
    have "wr y i 0.0 = Some (y[nat i := 0])"
      using i inv assms by (simp add: wr_def well_sized_def)
    moreover have "(y[nat i := 0]) ! n = 0" if "int n < i + 1" for n
      using that inv i assms by (cases "n = nat i") (auto simp: well_sized_def)
    ultimately show "\<exists>y'. wr y i 0.0 = Some y' \<and>
        (length y' = length p \<and> (\<forall>n. int n < i + 1 \<longrightarrow> y' ! n = 0))"
      using inv by simp
  qed
  then obtain y where y: "for_loop [0..size_grid N - 1] (\<lambda>i p. wr p i 0.0) p = Some y"
    "length y = length p" "\<And>n. int n < size_grid N \<Longrightarrow> y ! n = 0"
    by auto
  have "y = zeros N"
    using y(2,3) assms by (intro nth_equalityI) (auto simp: zeros_def well_sized_def)
  with y(1) show ?thesis by simp
qed

lemma diffuse_ok:
  assumes "1 \<le> N" "well_sized N x" "well_sized N x_0"
  shows "\<exists>y. diffuse N x x_0 bt = Some y \<and> well_sized N y"
  unfolding diffuse_def Let_def
proof (rule for_loop_inv [where I = "well_sized N", OF assms(2)])
  fix k y assume y: "well_sized N y"
  let ?a = "dt * diffusion_rate / (1.0 / real_of_int N * (1.0 / real_of_int N))"
  have "\<exists>z. for_loop [1..N] (\<lambda>i. for_loop [1..N] (\<lambda>j. diffuse_cell N ?a x_0 i j)) y = Some z
      \<and> well_sized N z"
    by (rule interior_loop_inv [where I = "well_sized N", OF y])
      (simp add: diffuse_cell_eq assms(3))
  then obtain z where z: "for_loop [1..N] (\<lambda>i. for_loop [1..N] (\<lambda>j. diffuse_cell N ?a x_0 i j)) y = Some z"
    "well_sized N z" by blast
  from setBoundary_ok [OF assms(1) z(2), of bt] z(1)
  show "\<exists>y'. do { x \<leftarrow> for_loop [1..N] (\<lambda>i. for_loop [1..N] (\<lambda>j. diffuse_cell N ?a x_0 i j)) y;
        setBoundary N x bt } = Some y' \<and> well_sized N y'"
    by simp
qed

lemma advect_ok:
  assumes "1 \<le> N" "well_sized N x" "well_sized N x_0" "well_sized N u_0" "well_sized N v_0"
  shows "\<exists>y. advect N x x_0 u_0 v_0 bt = Some y \<and> well_sized N y"
proof -
  have "\<exists>z. for_loop [1..N] (\<lambda>i. for_loop [1..N] (\<lambda>j. advect_cell N x_0 u_0 v_0 i j)) x = Some z
      \<and> well_sized N z"
    by (rule interior_loop_inv [where I = "well_sized N", OF assms(2)])
      (simp add: advect_cell_eq assms)
  then obtain z where
    z: "for_loop [1..N] (\<lambda>i. for_loop [1..N] (\<lambda>j. advect_cell N x_0 u_0 v_0 i j)) x = Some z"
    "well_sized N z" by blast
  from setBoundary_ok [OF assms(1) z(2), of bt] z(1)
  show ?thesis by (simp add: advect_def)
qed

lemma pressure_solve_ok:
  assumes "1 \<le> N" "well_sized N p" "well_sized N dv"
  shows "\<exists>q. for_loop ks (\<lambda>k p. do {
            p \<leftarrow> for_loop [1..N] (\<lambda>i. for_loop [1..N] (\<lambda>j. pressure_cell N dv i j)) p;
            setBoundary N p ''continuous'' }) p = Some q \<and> well_sized N q"
proof (rule for_loop_inv [where I = "well_sized N", OF assms(2)])
  fix k y assume y: "well_sized N y"
  have "\<exists>z. for_loop [1..N] (\<lambda>i. for_loop [1..N] (\<lambda>j. pressure_cell N dv i j)) y = Some z
      \<and> well_sized N z"
    by (rule interior_loop_inv [where I = "well_sized N", OF y])
      (simp add: pressure_cell_eq assms(3))
  then obtain z where z: "for_loop [1..N] (\<lambda>i. for_loop [1..N] (\<lambda>j. pressure_cell N dv i j)) y = Some z"
    "well_sized N z" by blast
  from setBoundary_ok [OF assms(1) z(2), of "''continuous''"] z(1)
  show "\<exists>y'. do { p \<leftarrow> for_loop [1..N] (\<lambda>i. for_loop [1..N] (\<lambda>j. pressure_cell N dv i j)) y;
        setBoundary N p ''continuous'' } = Some y' \<and> well_sized N y'"
    by simp
qed

lemma divergence_pass_ok:
  assumes "well_sized N dv" "well_sized N U" "well_sized N V"
  shows "\<exists>z. for_loop [1..N] (\<lambda>i. for_loop [1..N] (\<lambda>j. divergence_cell N h U V i j)) dv = Some z
      \<and> well_sized N z"
  by (rule interior_loop_inv [where I = "well_sized N", OF assms(1)])
    (simp add: divergence_cell_eq assms)

lemma gradient_pass_ok:
  assumes "well_sized N U" "well_sized N V" "well_sized N p"
  shows "\<exists>z. for_loop [1..N] (\<lambda>i. for_loop [1..N] (\<lambda>j. gradient_cell N h p i j)) (U, V) = Some z
      \<and> well_sized N (fst z) \<and> well_sized N (snd z)"
  by (rule interior_loop_inv [where I = "\<lambda>z. well_sized N (fst z) \<and> well_sized N (snd z)"])
    (simp_all add: gradient_cell_eq assms)

lemma project_ok:
  assumes "1 \<le> N" "well_sized N U" "well_sized N V" "well_sized N P" "well_sized N D"
  shows "\<exists>U' V' P' D'. project N U V P D = Some (U', V', P', D') \<and>
     well_sized N U' \<and> well_sized N V' \<and> well_sized N P' \<and> well_sized N D'"
proof -
  let ?h = "1.0 / real_of_int N"
  from divergence_pass_ok [OF assms(5,2,3), of ?h] obtain d1 where
    d1: "for_loop [1..N] (\<lambda>i. for_loop [1..N] (\<lambda>j. divergence_cell N ?h U V i j)) D = Some d1"
    "well_sized N d1" by blast
  from setBoundary_ok [OF assms(1) d1(2), of "''continuous''"] obtain d2 where
    d2: "setBoundary N d1 ''continuous'' = Some d2" "well_sized N d2" by blast
  from pressure_solve_ok [OF assms(1) well_sized_zeros d2(2), of "[0..10 - 1]"] obtain q where
    q: "for_loop [0..10 - 1] (\<lambda>k p. do {
            p \<leftarrow> for_loop [1..N] (\<lambda>i. for_loop [1..N] (\<lambda>j. pressure_cell N d2 i j)) p;
            setBoundary N p ''continuous'' }) (zeros N) = Some q" "well_sized N q" by blast
  from gradient_pass_ok [OF assms(2,3) q(2), of ?h] obtain z where
    z: "for_loop [1..N] (\<lambda>i. for_loop [1..N] (\<lambda>j. gradient_cell N ?h q i j)) (U, V) = Some z"
    "well_sized N (fst z)" "well_sized N (snd z)" by blast
  from setBoundary_ok [OF assms(1) z(2), of "''left_right_walls''"] obtain U' where
    U': "setBoundary N (fst z) ''left_right_walls'' = Some U'" "well_sized N U'" by blast
  from setBoundary_ok [OF assms(1) z(3), of "''top_bottom_walls''"] obtain V' where
    V': "setBoundary N (snd z) ''top_bottom_walls'' = Some V'" "well_sized N V'" by blast
  have "project N U V P D = Some (U', V', q, d2)"
    unfolding project_def Let_def
    by (simp only: zero_fill [OF assms(4)] d1(1) d2(1) q(1) z(1) U'(1) V'(1) bind.bind_lunit)
  then show ?thesis using U'(2) V'(2) q(2) d2(2) by blast
qed

section \<open>A rule for the two nested loops over the interior\<close>

text \<open>
  A Gauss-Seidel sweep reads, at each cell, the cells already rewritten in this sweep and
  the cells not yet reached. The rule below carries a property \<open>Q\<close> of the rewritten
  cells through the two nested loops.
\<close>

lemma visited_start: "\<not> visited N 1 1 a b"
  by (auto simp: visited_def)

lemma visited_next_row: "visited N k (N + 1) a b = visited N (k + 1) 1 a b"
  by (auto simp: visited_def)

lemma visited_end: "in_grid N a b \<Longrightarrow> visited N (N + 1) 1 a b = interior N a b"
  by (auto simp: visited_def interior_def in_grid_def)

lemma visited_step:
  "interior N i j \<Longrightarrow> visited N i (j + 1) a b = (visited N i j a b \<or> (a = i \<and> b = j))"
  by (auto simp: visited_def interior_def)

lemma not_visited_self: "\<not> visited N i j i j"
  by (simp add: visited_def)

lemma interior_pass_rule:
  fixes get :: "'s \<Rightarrow> field" and ok :: "'s \<Rightarrow> bool"
  assumes "1 \<le> N" "ok x"
    and okw: "\<And>s. ok s \<Longrightarrow> well_sized N (get s)"
    and body: "\<And>i j s. interior N i j \<Longrightarrow> ok s \<Longrightarrow>
                 \<exists>s'. body i j s = Some s' \<and> ok s' \<and> get s' = upd N (get s) i j (f s i j)"
    and step: "\<And>i j s. interior N i j \<Longrightarrow> ok s \<Longrightarrow>
                 (\<And>a b. in_grid N a b \<Longrightarrow> visited N i j a b \<Longrightarrow> Q a b (cell N (get s) a b)) \<Longrightarrow>
                 (\<And>a b. in_grid N a b \<Longrightarrow> \<not> visited N i j a b \<Longrightarrow>
                    cell N (get s) a b = cell N (get x) a b) \<Longrightarrow>
                 Q i j (f s i j)"
  shows "\<exists>x'. for_loop [1..N] (\<lambda>i. for_loop [1..N] (\<lambda>j. body i j)) x = Some x' \<and> ok x' \<and>
           (\<forall>a b. in_grid N a b \<longrightarrow>
              (if interior N a b then Q a b (cell N (get x') a b)
               else cell N (get x') a b = cell N (get x) a b))"
proof -
  let ?I = "\<lambda>k l s. ok s \<and>
               (\<forall>a b. in_grid N a b \<longrightarrow>
                  (if visited N k l a b then Q a b (cell N (get s) a b)
                   else cell N (get s) a b = cell N (get x) a b))"
  have "\<exists>x'. for_loop [1..N] (\<lambda>i. for_loop [1..N] (\<lambda>j. body i j)) x = Some x' \<and> ?I (N + 1) 1 x'"
  proof (rule for_loop_upto_rule [where I = "\<lambda>k. ?I k 1"])
    show "1 \<le> N + 1" using assms(1) by simp
    show "?I 1 1 x" using assms(2) by (simp add: visited_start)
  next
    fix i s assume i: "1 \<le> i" "i \<le> N" and s: "?I i 1 s"
    have "\<exists>s'. for_loop [1..N] (body i) s = Some s' \<and> ?I i (N + 1) s'"
    proof (rule for_loop_upto_rule [where I = "\<lambda>l. ?I i l"])
      show "1 \<le> N + 1" using assms(1) by simp
      show "?I i 1 s" by (rule s)
    next
      fix j t assume j: "1 \<le> j" "j \<le> N" and t: "?I i j t"
      have ij: "interior N i j" using i j by (simp add: interior_def)
      have okt: "ok t" using t by simp
      from body [OF ij okt] obtain t' where
        t': "body i j t = Some t'" "ok t'" "get t' = upd N (get t) i j (f t i j)" by blast
      have q: "Q i j (f t i j)"
        using ij okt by (rule step) (use t in auto)
      have "if visited N i (j + 1) a b then Q a b (cell N (get t') a b)
            else cell N (get t') a b = cell N (get x) a b" if ab: "in_grid N a b" for a b
      proof (cases "a = i \<and> b = j")
        case True
        then show ?thesis
          using q ab okw [OF okt] by (simp add: t'(3) cell_upd visited_step [OF ij])
      next
        case False
        then have "cell N (get t') a b = cell N (get t) a b"
          using ab okw [OF okt] interior_in_grid(1) [OF ij] by (auto simp: t'(3) cell_upd)
        moreover have "visited N i (j + 1) a b = visited N i j a b"
          using False by (auto simp: visited_step [OF ij])
        ultimately show ?thesis using t ab by simp
      qed
      then show "\<exists>t'. body i j t = Some t' \<and> ?I i (j + 1) t'"
        using t'(1,2) by blast
    qed
    then show "\<exists>s'. for_loop [1..N] (body i) s = Some s' \<and> ?I (i + 1) 1 s'"
      by (simp add: visited_next_row)
  qed
  then show ?thesis by (auto simp: visited_end)
qed

text \<open>The case of a pass whose written values do not depend on the array written.\<close>

lemma interior_pass_pointwise:
  assumes "1 \<le> N" "well_sized N x"
    and body: "\<And>i j y. interior N i j \<Longrightarrow> well_sized N y \<Longrightarrow>
                 body i j y = Some (upd N y i j (g i j))"
  shows "\<exists>x'. for_loop [1..N] (\<lambda>i. for_loop [1..N] (\<lambda>j. body i j)) x = Some x' \<and>
           well_sized N x' \<and>
           (\<forall>a b. in_grid N a b \<longrightarrow>
              cell N x' a b = (if interior N a b then g a b else cell N x a b))"
proof -
  have "\<exists>x'. for_loop [1..N] (\<lambda>i. for_loop [1..N] (\<lambda>j. body i j)) x = Some x' \<and>
      well_sized N x' \<and>
      (\<forall>a b. in_grid N a b \<longrightarrow>
         (if interior N a b then cell N x' a b = g a b else cell N x' a b = cell N x a b))"
    by (rule interior_pass_rule
        [where get = "\<lambda>s. s" and ok = "well_sized N" and f = "\<lambda>s. g" and Q = "\<lambda>a b val. val = g a b"])
      (simp_all add: assms)
  then show ?thesis by (metis (no_types, lifting))
qed

section \<open>diffuse and advect against their specification\<close>

lemma wr_rd_same: "wr x k a = Some y \<Longrightarrow> rd y k = Some a"
  by (auto simp: wr_def rd_def split: if_splits)

lemma wr_wr_same: "wr x k a = Some y \<Longrightarrow> wr y k b = wr x k b"
  by (auto simp: wr_def split: if_splits)

lemma for_loop_Cons_bind: "for_loop (k # ks) body x = body k x \<bind> for_loop ks body"
  by (simp split: option.split)

lemma diffuse_cell_spec: "diffuse_cell N a x_0 i j x = relax_cell_spec N a x_0 i j x"
proof -
  have "do { y \<leftarrow> wr x k val; t \<leftarrow> rd y k; wr y k (t / c) } = wr x k (val / c)" for k val c
  proof (cases "wr x k val")
    case None
    then show ?thesis by (simp add: wr_def split: if_splits)
  next
    case (Some y)
    then show ?thesis by (simp add: wr_rd_same [OF Some] wr_wr_same [OF Some])
  qed
  then show ?thesis by (simp add: diffuse_cell_def relax_cell_spec_def)
qed

text \<open>
  Claim C5 (diffuser semantics). \<open>diffuse\<close> equals \<open>diffuse_spec\<close>: four sweeps, each
  relaxing the interior cells in place with \<open>i\<close> in the outer and \<open>j\<close> in the inner loop
  by \<open>out[i,j] = (in[i,j] + a * (out[i-1,j] + out[i+1,j] + out[i,j-1] + out[i,j+1])) / (1 + 4a)\<close>
  with \<open>a = dt * rate / h\<^sup>2\<close> and \<open>h = 1 / N\<close>, and each followed by \<open>setBoundary\<close>. On
  well-sized buffers the four sweeps run to completion.
\<close>

theorem diffuse_refines_spec:
  "diffuse N x x_0 boundaryType = diffuse_spec N x x_0 boundaryType diffusion_rate dt \<and>
   (1 \<le> N \<and> well_sized N x \<and> well_sized N x_0 \<longrightarrow>
      (\<exists>y. diffuse N x x_0 boundaryType = Some y \<and> well_sized N y))"
proof
  have u: "[0..4 - 1] = [0, 1, 2, 3::int]" by (simp add: upto.simps)
  have c: "diffuse_cell = relax_cell_spec" by (intro ext) (rule diffuse_cell_spec)
  have l: "for_loop [0, 1, 2, 3] (\<lambda>k. f) y = do { y \<leftarrow> f y; y \<leftarrow> f y; y \<leftarrow> f y; f y }"
    for f :: "field \<Rightarrow> field option" and y
  proof -
    have n: "for_loop [] (\<lambda>k. f) = Some" by (intro ext) simp
    have s: "for_loop (k # ks) (\<lambda>k. f) = (\<lambda>y. f y \<bind> for_loop ks (\<lambda>k. f))" for k ks
      by (intro ext) (rule for_loop_Cons_bind)
    show ?thesis by (simp add: s n)
  qed
  define a where "a = dt * diffusion_rate / (1 / real_of_int N)\<^sup>2"
  have sw: "sweep_spec N a x_0 boundaryType =
      (\<lambda>y. do { y \<leftarrow> for_loop [1..N] (\<lambda>i. for_loop [1..N] (\<lambda>j. diffuse_cell N a x_0 i j)) y;
                 setBoundary N y boundaryType })"
    by (intro ext) (simp add: sweep_spec_def c)
  have "diffuse N x x_0 boundaryType = for_loop [0, 1, 2, 3] (\<lambda>k. sweep_spec N a x_0 boundaryType) x"
    unfolding diffuse_def Let_def u sw by (simp add: a_def power2_eq_square)
  also have "\<dots> = diffuse_spec N x x_0 boundaryType diffusion_rate dt"
    unfolding l diffuse_spec_def Let_def a_def by simp
  finally show "diffuse N x x_0 boundaryType = diffuse_spec N x x_0 boundaryType diffusion_rate dt" .
  show "1 \<le> N \<and> well_sized N x \<and> well_sized N x_0 \<longrightarrow>
      (\<exists>y. diffuse N x x_0 boundaryType = Some y \<and> well_sized N y)"
    using diffuse_ok by blast
qed

theorem diffuse_refines_spec_witness:
  "diffuse 1 [1, 2, 3, 4, 5, 6, 7, 8, 9] [9, 8, 7, 6, 5, 4, 3, 2, 1] ''continuous'' =
     diffuse_spec 1 [1, 2, 3, 4, 5, 6, 7, 8, 9] [9, 8, 7, 6, 5, 4, 3, 2, 1] ''continuous'' diffusion_rate dt \<and>
   (\<exists>y. diffuse 1 [1, 2, 3, 4, 5, 6, 7, 8, 9] [9, 8, 7, 6, 5, 4, 3, 2, 1] ''continuous'' = Some y \<and>
      well_sized 1 y)"
proof -
  have "1 \<le> (1::int) \<and> well_sized 1 [1, 2, 3, 4, 5, 6, 7, 8, 9] \<and>
      well_sized 1 [9, 8, 7, 6, 5, 4, 3, 2, 1]"
    by (simp add: well_sized_def size_grid_def)
  with diffuse_refines_spec [of 1 "[1, 2, 3, 4, 5, 6, 7, 8, 9]" "[9, 8, 7, 6, 5, 4, 3, 2, 1]" "''continuous''"]
  show ?thesis by blast
qed

lemma advect_value_eq:
  "1 \<le> N \<Longrightarrow> advect_value N x_0 u_0 v_0 i j =
     bilinear N x_0 (backtrace N i (cell N u_0 i j)) (backtrace N j (cell N v_0 i j))"
  by (simp add: advect_value_def bilinear_def backtrace_clamp Let_def)

text \<open>
  Claim C4 (advection semantics). \<open>advect\<close> first writes into every interior cell
  \<open>(i, j)\<close> the bilinear interpolation of the input field at the backward-traced point
  \<open>(i - dt * velX[i,j] * N, j - dt * velY[i,j] * N)\<close>, each coordinate clamped to
  \<open>[0.5, N + 0.5]\<close>, leaving the ghost cells as they were (the buffer \<open>y\<close>), and then
  applies \<open>setBoundary\<close> once; the interior cells of the result hold the interpolated
  values.
\<close>

theorem advect_semantics:
  assumes "1 \<le> N" and "well_sized N x" and "well_sized N x_0"
    and "well_sized N u_0" and "well_sized N v_0"
  shows "\<exists>y z. advect N x x_0 u_0 v_0 boundaryType = Some z \<and>
           well_sized N y \<and>
           (\<forall>i j. in_grid N i j \<longrightarrow>
              cell N y i j = (if interior N i j then advect_value N x_0 u_0 v_0 i j
                              else cell N x i j)) \<and>
           setBoundary N y boundaryType = Some z \<and>
           (\<forall>i j. interior N i j \<longrightarrow> cell N z i j = advect_value N x_0 u_0 v_0 i j)"
proof -
  have "\<exists>y. for_loop [1..N] (\<lambda>i. for_loop [1..N] (\<lambda>j. advect_cell N x_0 u_0 v_0 i j)) x = Some y \<and>
      well_sized N y \<and>
      (\<forall>a b. in_grid N a b \<longrightarrow>
         cell N y a b = (if interior N a b then advect_value N x_0 u_0 v_0 a b else cell N x a b))"
    by (rule interior_pass_pointwise [OF assms(1,2)])
      (simp add: advect_cell_eq assms advect_value_eq)
  then obtain y where
    y: "for_loop [1..N] (\<lambda>i. for_loop [1..N] (\<lambda>j. advect_cell N x_0 u_0 v_0 i j)) x = Some y"
      "well_sized N y"
      "\<And>a b. in_grid N a b \<Longrightarrow>
         cell N y a b = (if interior N a b then advect_value N x_0 u_0 v_0 a b else cell N x a b)"
    by blast
  from setBoundary_cells [OF assms(1) y(2), of boundaryType] obtain z where
    z: "setBoundary N y boundaryType = Some z"
      "\<And>a b. in_grid N a b \<Longrightarrow> cell N z a b = bnd N boundaryType y a b"
    by blast
  have "cell N z i j = advect_value N x_0 u_0 v_0 i j" if "interior N i j" for i j
    using that z(2) [of i j] y(3) [of i j] bnd_interior [OF assms(1) that, of boundaryType y]
      interior_in_grid(1) [OF that] by simp
  moreover have "advect N x x_0 u_0 v_0 boundaryType = Some z"
    by (simp add: advect_def y(1) z(1))
  ultimately show ?thesis using y(2,3) z(1) by blast
qed

theorem advect_semantics_witness:
  "\<exists>y z. advect 1 [1, 2, 3, 4, 5, 6, 7, 8, 9] [9, 8, 7, 6, 5, 4, 3, 2, 1]
             [0, 0, 0, 0, 500, 0, 0, 0, 0] [0, 0, 0, 0, - 500, 0, 0, 0, 0] ''continuous'' = Some z \<and>
           well_sized 1 y \<and>
           (\<forall>i j. in_grid 1 i j \<longrightarrow>
              cell 1 y i j = (if interior 1 i j
                 then advect_value 1 [9, 8, 7, 6, 5, 4, 3, 2, 1]
                        [0, 0, 0, 0, 500, 0, 0, 0, 0] [0, 0, 0, 0, - 500, 0, 0, 0, 0] i j
                 else cell 1 [1, 2, 3, 4, 5, 6, 7, 8, 9] i j)) \<and>
           setBoundary 1 y ''continuous'' = Some z \<and>
           (\<forall>i j. interior 1 i j \<longrightarrow> cell 1 z i j =
              advect_value 1 [9, 8, 7, 6, 5, 4, 3, 2, 1]
                [0, 0, 0, 0, 500, 0, 0, 0, 0] [0, 0, 0, 0, - 500, 0, 0, 0, 0] i j)"
  using advect_semantics [of 1 "[1, 2, 3, 4, 5, 6, 7, 8, 9]" "[9, 8, 7, 6, 5, 4, 3, 2, 1]"
      "[0, 0, 0, 0, 500, 0, 0, 0, 0]" "[0, 0, 0, 0, - 500, 0, 0, 0, 0]" "''continuous''"]
  by (simp add: well_sized_def size_grid_def)

section \<open>project and its scratch buffers\<close>

lemma setBoundary_interior_determined:
  assumes "1 \<le> N" "well_sized N y" "well_sized N y'"
    and "\<And>i j. interior N i j \<Longrightarrow> cell N y i j = cell N y' i j"
  shows "setBoundary N y bt = setBoundary N y' bt"
proof -
  from setBoundary_cells [OF assms(1,2), of bt] obtain z where
    z: "setBoundary N y bt = Some z" "well_sized N z"
      "\<And>a b. in_grid N a b \<Longrightarrow> cell N z a b = bnd N bt y a b"
    by blast
  from setBoundary_cells [OF assms(1,3), of bt] obtain z' where
    z': "setBoundary N y' bt = Some z'" "well_sized N z'"
      "\<And>a b. in_grid N a b \<Longrightarrow> cell N z' a b = bnd N bt y' a b"
    by blast
  have "cell N z a b = cell N z' a b" if ab: "in_grid N a b" for a b
  proof (cases "interior N a b")
    case True
    then show ?thesis
      using z(3) [OF ab] z'(3) [OF ab] bnd_interior [OF assms(1) True] assms(4) by simp
  next
    case False
    have "bnd N bt y a b = bnd N bt y' a b"
      using assms(1,4) ab False by (rule bnd_cong)
    then show ?thesis using z(3) [OF ab] z'(3) [OF ab] by simp
  qed
  then have "z = z'" using assms(1) z(2) z'(2) by (intro field_eqI [of N]) auto
  then show ?thesis using z(1) z'(1) by simp
qed

lemma divergence_stage_independent:
  assumes "1 \<le> N" "well_sized N U" "well_sized N V" "well_sized N D" "well_sized N D'"
  shows "for_loop [1..N] (\<lambda>i. for_loop [1..N] (\<lambda>j. divergence_cell N h U V i j)) D
           \<bind> (\<lambda>dv. setBoundary N dv bt) =
         for_loop [1..N] (\<lambda>i. for_loop [1..N] (\<lambda>j. divergence_cell N h U V i j)) D'
           \<bind> (\<lambda>dv. setBoundary N dv bt)"
proof -
  let ?g = "\<lambda>i j. ((cell N U (i + 1) j - cell N U (i - 1) j) / (- 2)) * h +
            ((cell N V i (j + 1) - cell N V i (j - 1)) / (- 2)) * h"
  have p: "\<exists>y. for_loop [1..N] (\<lambda>i. for_loop [1..N] (\<lambda>j. divergence_cell N h U V i j)) E = Some y \<and>
      well_sized N y \<and>
      (\<forall>a b. in_grid N a b \<longrightarrow> cell N y a b = (if interior N a b then ?g a b else cell N E a b))"
    if "well_sized N E" for E
    by (rule interior_pass_pointwise [OF assms(1) that])
      (simp add: divergence_cell_eq assms(2,3))
  from p [OF assms(4)] obtain y where
    y: "for_loop [1..N] (\<lambda>i. for_loop [1..N] (\<lambda>j. divergence_cell N h U V i j)) D = Some y"
      "well_sized N y" "\<And>a b. interior N a b \<Longrightarrow> cell N y a b = ?g a b"
    using interior_in_grid(1) by (metis (no_types, lifting))
  from p [OF assms(5)] obtain y' where
    y': "for_loop [1..N] (\<lambda>i. for_loop [1..N] (\<lambda>j. divergence_cell N h U V i j)) D' = Some y'"
      "well_sized N y'" "\<And>a b. interior N a b \<Longrightarrow> cell N y' a b = ?g a b"
    using interior_in_grid(1) by (metis (no_types, lifting))
  have "setBoundary N y bt = setBoundary N y' bt"
    using assms(1) y(2) y'(2) by (rule setBoundary_interior_determined) (simp add: y(3) y'(3))
  then show ?thesis by (simp add: y(1) y'(1))
qed

lemma zero_fill0:
  "well_sized N P \<Longrightarrow> for_loop [0..size_grid N - 1] (\<lambda>i p. wr p i 0) P = Some (zeros N)"
  using zero_fill [of N P] by simp

lemma project_zero_filled:
  assumes "well_sized N P"
  shows "project N U V P D = do {
        dv \<leftarrow> for_loop [1..N] (\<lambda>i. for_loop [1..N] (\<lambda>j. divergence_cell N (1.0 / real_of_int N) U V i j)) D
               \<bind> (\<lambda>dv. setBoundary N dv ''continuous'');
        p \<leftarrow> for_loop [0..10 - 1]
               (\<lambda>k p. do {
                  p \<leftarrow> for_loop [1..N] (\<lambda>i. for_loop [1..N] (\<lambda>j. pressure_cell N dv i j)) p;
                  setBoundary N p ''continuous''
                }) (zeros N);
        uv \<leftarrow> for_loop [1..N] (\<lambda>i. for_loop [1..N] (\<lambda>j. gradient_cell N (1.0 / real_of_int N) p i j)) (U, V);
        u \<leftarrow> setBoundary N (fst uv) ''left_right_walls'';
        v \<leftarrow> setBoundary N (snd uv) ''top_bottom_walls'';
        Some (u, v, p, dv)
      }"
  unfolding project_def Let_def by (simp add: zero_fill0 [OF assms])

text \<open>
  Claim C9 (scratch buffers). On well-sized buffers \<open>project\<close> returns the same four
  arrays whatever the scratch buffers \<open>p\<close> and \<open>div\<close> held on entry, so in particular the
  same final \<open>u\<close> and \<open>v\<close>, and it does return.
\<close>

theorem project_ignores_scratch:
  assumes "1 \<le> N" and "well_sized N U" and "well_sized N V"
    and "well_sized N P" and "well_sized N D" and "well_sized N P'" and "well_sized N D'"
  shows "project N U V P D = project N U V P' D' \<and>
         (\<exists>U' V' Q E. project N U V P D = Some (U', V', Q, E))"
proof
  show "project N U V P D = project N U V P' D'"
    unfolding project_zero_filled [OF assms(4)] project_zero_filled [OF assms(6)]
      divergence_stage_independent [OF assms(1,2,3,5,7)] ..
  show "\<exists>U' V' Q E. project N U V P D = Some (U', V', Q, E)"
    using project_ok [OF assms(1,2,3,4,5)] by blast
qed

theorem project_ignores_scratch_witness:
  "project 1 [1, 2, 3, 4, 5, 6, 7, 8, 9] [9, 8, 7, 6, 5, 4, 3, 2, 1]
       [0, 0, 0, 0, 0, 0, 0, 0, 0] [0, 0, 0, 0, 0, 0, 0, 0, 0] =
   project 1 [1, 2, 3, 4, 5, 6, 7, 8, 9] [9, 8, 7, 6, 5, 4, 3, 2, 1]
       [1, - 2, 3, - 4, 5, - 6, 7, - 8, 9] [10, 20, 30, 40, 50, 60, 70, 80, 90] \<and>
   (\<exists>U' V' Q E. project 1 [1, 2, 3, 4, 5, 6, 7, 8, 9] [9, 8, 7, 6, 5, 4, 3, 2, 1]
       [0, 0, 0, 0, 0, 0, 0, 0, 0] [0, 0, 0, 0, 0, 0, 0, 0, 0] = Some (U', V', Q, E))"
  by (rule project_ignores_scratch) (simp_all add: well_sized_def size_grid_def)

section \<open>The all-zero state is a fixed point\<close>

lemma cell_zeros: "in_grid N i j \<Longrightarrow> cell N (zeros N) i j = 0"
  using index_bounds [of N i j] by (simp add: cell_def zeros_def)

lemma upd_cell_same [simp]: "upd N x i j (cell N x i j) = x"
  by (simp add: upd_def cell_def)

lemma upd_zeros: "in_grid N i j \<Longrightarrow> upd N (zeros N) i j 0 = zeros N"
  using upd_cell_same [of N "zeros N" i j] by (simp add: cell_zeros)

lemma replicate_update_same [simp]: "(replicate n a)[k := a] = replicate n a"
proof (cases "k < n")
  case True
  then show ?thesis by (simp add: list_update_same_conv)
next
  case False
  then show ?thesis by (simp add: list_update_beyond)
qed

lemma addSource_zeros: "addSource N (zeros N) (zeros N) = Some (zeros N)"
proof -
  have "\<exists>y. for_loop [0..size_grid N - 1]
      (\<lambda>i x. do { xi \<leftarrow> rd x i; si \<leftarrow> rd (zeros N) i; wr x i (xi + dt * si) }) (zeros N) = Some y
      \<and> y = zeros N"
  proof (rule for_loop_inv [where I = "\<lambda>y. y = zeros N"])
    fix i y assume i: "i \<in> set [0..size_grid N - 1]" and y: "y = zeros N"
    have "rd (zeros N) i = Some 0" using i by (simp add: rd_def zeros_def)
    moreover have "wr (zeros N) i 0 = Some (zeros N)" using i by (simp add: wr_def zeros_def)
    ultimately show "\<exists>y'. do { xi \<leftarrow> rd y i; si \<leftarrow> rd (zeros N) i; wr y i (xi + dt * si) } = Some y'
        \<and> y' = zeros N"
      using y by simp
  qed simp
  then show ?thesis by (simp add: addSource_def)
qed

lemma setBoundary_zeros:
  assumes "1 \<le> N"
  shows "setBoundary N (zeros N) bt = Some (zeros N)"
proof -
  have g: "in_grid N 0 0" "in_grid N 0 1" "in_grid N 1 0"
    "in_grid N (N + 1) 0" "in_grid N (N + 1) 1" "in_grid N N 0"
    "in_grid N 0 (N + 1)" "in_grid N 0 N" "in_grid N 1 (N + 1)"
    "in_grid N (N + 1) (N + 1)" "in_grid N (N + 1) N" "in_grid N N (N + 1)"
    using assms by (simp_all add: in_grid_def)
  have rows: "for_loop [1..N] (setBoundary_row N bt) (zeros N) = Some (zeros N)"
  proof -
    have "\<exists>y. for_loop [1..N] (setBoundary_row N bt) (zeros N) = Some y \<and> y = zeros N"
    proof (rule for_loop_inv [where I = "\<lambda>y. y = zeros N"])
      fix i y assume i: "i \<in> set [1..N]" and y: "y = zeros N"
      have "in_grid N i 0" "in_grid N i 1" "in_grid N i N" "in_grid N i (N + 1)"
        using i assms by (simp_all add: in_grid_def)
      then show "\<exists>y'. setBoundary_row N bt i y = Some y' \<and> y' = zeros N"
        using i y assms by (simp add: setBoundary_row_eq cell_zeros upd_zeros)
    qed simp
    then show ?thesis by simp
  qed
  have cols: "for_loop [1..N] (setBoundary_col N bt) (zeros N) = Some (zeros N)"
  proof -
    have "\<exists>y. for_loop [1..N] (setBoundary_col N bt) (zeros N) = Some y \<and> y = zeros N"
    proof (rule for_loop_inv [where I = "\<lambda>y. y = zeros N"])
      fix j y assume j: "j \<in> set [1..N]" and y: "y = zeros N"
      have "in_grid N 0 j" "in_grid N 1 j" "in_grid N N j" "in_grid N (N + 1) j"
        using j assms by (simp_all add: in_grid_def)
      then show "\<exists>y'. setBoundary_col N bt j y = Some y' \<and> y' = zeros N"
        using j y assms by (simp add: setBoundary_col_eq cell_zeros upd_zeros)
    qed simp
    then show ?thesis by simp
  qed
  have "setBoundary_corners N (zeros N) = Some (zeros N)"
    using g by (simp add: setBoundary_corners_def rd_cell wr_cell cell_zeros upd_zeros)
  then show ?thesis by (simp add: setBoundary_def rows cols)
qed

lemma interior_loop_fixed:
  assumes "\<And>i j. interior N i j \<Longrightarrow> body i j x = Some x"
  shows "for_loop [1..N] (\<lambda>i. for_loop [1..N] (\<lambda>j. body i j)) x = Some x"
proof -
  have "\<exists>y. for_loop [1..N] (\<lambda>i. for_loop [1..N] (\<lambda>j. body i j)) x = Some y \<and> y = x"
    by (rule interior_loop_inv [where I = "\<lambda>y. y = x"]) (simp_all add: assms)
  then show ?thesis by simp
qed

lemma for_loop_fixed:
  assumes "\<And>k. k \<in> set ks \<Longrightarrow> body k x = Some x"
  shows "for_loop ks body x = Some x"
proof -
  have "\<exists>y. for_loop ks body x = Some y \<and> y = x"
    by (rule for_loop_inv [where I = "\<lambda>y. y = x"]) (simp_all add: assms)
  then show ?thesis by simp
qed

lemma diffuse_zeros:
  assumes "1 \<le> N"
  shows "diffuse N (zeros N) (zeros N) bt = Some (zeros N)"
  unfolding diffuse_def Let_def
proof (rule for_loop_fixed)
  fix k
  let ?a = "dt * diffusion_rate / (1.0 / real_of_int N * (1.0 / real_of_int N))"
  have "for_loop [1..N] (\<lambda>i. for_loop [1..N] (\<lambda>j. diffuse_cell N ?a (zeros N) i j)) (zeros N)
      = Some (zeros N)"
  proof (rule interior_loop_fixed)
    fix i j assume ij: "interior N i j"
    show "diffuse_cell N ?a (zeros N) i j (zeros N) = Some (zeros N)"
      using interior_in_grid [OF ij]
      by (simp add: diffuse_cell_eq [OF ij] cell_zeros upd_zeros)
  qed
  then show "do { x \<leftarrow> for_loop [1..N] (\<lambda>i. for_loop [1..N] (\<lambda>j. diffuse_cell N ?a (zeros N) i j)) (zeros N);
        setBoundary N x bt } = Some (zeros N)"
    by (simp add: setBoundary_zeros [OF assms])
qed

lemma bilinear_zeros:
  assumes "in_grid N \<lfloor>px\<rfloor> \<lfloor>py\<rfloor>" "in_grid N \<lfloor>px\<rfloor> (\<lfloor>py\<rfloor> + 1)"
    "in_grid N (\<lfloor>px\<rfloor> + 1) \<lfloor>py\<rfloor>" "in_grid N (\<lfloor>px\<rfloor> + 1) (\<lfloor>py\<rfloor> + 1)"
  shows "bilinear N (zeros N) px py = 0"
  using assms by (simp add: bilinear_def Let_def cell_zeros)

lemma advect_zeros:
  assumes "1 \<le> N" "well_sized N u_0" "well_sized N v_0"
  shows "advect N (zeros N) (zeros N) u_0 v_0 bt = Some (zeros N)"
proof -
  have "for_loop [1..N] (\<lambda>i. for_loop [1..N] (\<lambda>j. advect_cell N (zeros N) u_0 v_0 i j)) (zeros N)
      = Some (zeros N)"
  proof (rule interior_loop_fixed)
    fix i j assume ij: "interior N i j"
    let ?px = "backtrace N i (cell N u_0 i j)" and ?py = "backtrace N j (cell N v_0 i j)"
    have "bilinear N (zeros N) ?px ?py = 0"
      using backtrace_stencil [OF assms(1), of i "cell N u_0 i j"]
        backtrace_stencil [OF assms(1), of j "cell N v_0 i j"]
      by (intro bilinear_zeros) (simp_all add: in_grid_def)
    then show "advect_cell N (zeros N) u_0 v_0 i j (zeros N) = Some (zeros N)"
      using interior_in_grid(1) [OF ij]
      by (simp add: advect_cell_eq [OF assms(1) ij] assms upd_zeros)
  qed
  then show ?thesis by (simp add: advect_def setBoundary_zeros [OF assms(1)])
qed

lemma pressure_solve_zeros:
  assumes "1 \<le> N"
  shows "for_loop ks (\<lambda>k p. do {
            p \<leftarrow> for_loop [1..N] (\<lambda>i. for_loop [1..N] (\<lambda>j. pressure_cell N (zeros N) i j)) p;
            setBoundary N p ''continuous'' }) (zeros N) = Some (zeros N)"
proof (rule for_loop_fixed)
  fix k
  have "for_loop [1..N] (\<lambda>i. for_loop [1..N] (\<lambda>j. pressure_cell N (zeros N) i j)) (zeros N)
      = Some (zeros N)"
  proof (rule interior_loop_fixed)
    fix i j assume ij: "interior N i j"
    show "pressure_cell N (zeros N) i j (zeros N) = Some (zeros N)"
      using interior_in_grid [OF ij]
      by (simp add: pressure_cell_eq [OF ij] cell_zeros upd_zeros)
  qed
  then show "do { p \<leftarrow> for_loop [1..N] (\<lambda>i. for_loop [1..N] (\<lambda>j. pressure_cell N (zeros N) i j)) (zeros N);
        setBoundary N p ''continuous'' } = Some (zeros N)"
    by (simp add: setBoundary_zeros [OF assms])
qed

lemma gradient_pass_zero_pressure:
  assumes "well_sized N U" "well_sized N V"
  shows "for_loop [1..N] (\<lambda>i. for_loop [1..N] (\<lambda>j. gradient_cell N h (zeros N) i j)) (U, V)
      = Some (U, V)"
proof (rule interior_loop_fixed)
  fix i j assume ij: "interior N i j"
  show "gradient_cell N h (zeros N) i j (U, V) = Some (U, V)"
    using interior_in_grid [OF ij] assms
    by (simp add: gradient_cell_eq [OF ij] cell_zeros)
qed

lemma project_zeros:
  assumes "1 \<le> N" "well_sized N P" "well_sized N D"
  shows "project N (zeros N) (zeros N) P D = Some (zeros N, zeros N, zeros N, zeros N)"
proof -
  have "for_loop [1..N] (\<lambda>i. for_loop [1..N]
        (\<lambda>j. divergence_cell N (1.0 / real_of_int N) (zeros N) (zeros N) i j)) (zeros N)
      = Some (zeros N)"
  proof (rule interior_loop_fixed)
    fix i j assume ij: "interior N i j"
    show "divergence_cell N (1.0 / real_of_int N) (zeros N) (zeros N) i j (zeros N) = Some (zeros N)"
      using interior_in_grid [OF ij]
      by (simp add: divergence_cell_eq [OF ij] cell_zeros upd_zeros)
  qed
  then have dv: "for_loop [1..N] (\<lambda>i. for_loop [1..N]
        (\<lambda>j. divergence_cell N (1.0 / real_of_int N) (zeros N) (zeros N) i j)) D
        \<bind> (\<lambda>dv. setBoundary N dv ''continuous'') = Some (zeros N)"
    using divergence_stage_independent [OF assms(1) well_sized_zeros well_sized_zeros assms(3)
        well_sized_zeros, of "1.0 / real_of_int N" "''continuous''"]
    by (simp add: setBoundary_zeros [OF assms(1)])
  show ?thesis
    unfolding project_zero_filled [OF assms(2)] dv
    by (simp add: pressure_solve_zeros [OF assms(1)] gradient_pass_zero_pressure
        setBoundary_zeros [OF assms(1)])
qed

lemma velocityStep_zero: "1 \<le> N \<Longrightarrow> velocityStep N (zero_state N) = Some (zero_state N)"
  by (simp add: velocityStep_def zero_state_def addSource_zeros diffuse_zeros project_zeros
      advect_zeros)

lemma densityStep_zero: "1 \<le> N \<Longrightarrow> densityStep N (zero_state N) = Some (zero_state N)"
  by (simp add: densityStep_def zero_state_def addSource_zeros diffuse_zeros advect_zeros)

text \<open>
  Claim C1 (zero-source stability). From the state whose nine buffers are all zero, any
  number of ticks returns that same state: density and both velocity components stay
  zero in every cell.
\<close>

theorem zero_source_stability:
  assumes "1 \<le> N"
  shows "steps N n (zero_state N) = Some (zero_state N)"
proof (induction n)
  case 0
  show ?case by simp
next
  case (Suc n)
  have "step N (zero_state N) = Some (zero_state N)"
    using assms by (simp add: step_def velocityStep_zero densityStep_zero)
  then show ?case using Suc by simp
qed

theorem zero_source_stability_witness:
  "steps 2 8 (zero_state 2) = Some (zero_state 2)"
  by (rule zero_source_stability) simp

section \<open>The stepper\<close>

lemma bind_None_right [simp]: "(x \<bind> (\<lambda>_. None)) = (None :: 'b option)" for x :: "'a option"
  by (cases x) simp_all

lemma addSource_ok:
  assumes "well_sized N x" "well_sized N src"
  shows "\<exists>y. addSource N x src = Some y \<and> well_sized N y"
  unfolding addSource_def
proof (rule for_loop_inv [where I = "well_sized N", OF assms(1)])
  fix i y assume i: "i \<in> set [0..size_grid N - 1]" and y: "well_sized N y"
  show "\<exists>y'. do { xi \<leftarrow> rd y i; si \<leftarrow> rd src i; wr y i (xi + dt * si) } = Some y' \<and> well_sized N y'"
    using i y assms(2) by (simp add: rd_def wr_def well_sized_def)
qed

lemma velocityStep_ok:
  assumes "1 \<le> N" "state_ok N s"
  shows "\<exists>s'. velocityStep N s = Some s' \<and> state_ok N s'"
proof -
  from assms(2) have w: "well_sized N (u s)" "well_sized N (v s)" "well_sized N (d s)"
    "well_sized N (uPrev s)" "well_sized N (vPrev s)" "well_sized N (dPrev s)"
    "well_sized N (dSource s)" "well_sized N (uSource s)" "well_sized N (vSource s)"
    by (simp_all add: state_ok_def)
  from addSource_ok [OF w(1) w(8)] obtain u1 where
    u1: "addSource N (u s) (uSource s) = Some u1" "well_sized N u1" by blast
  from addSource_ok [OF w(2) w(9)] obtain v1 where
    v1: "addSource N (v s) (vSource s) = Some v1" "well_sized N v1" by blast
  from diffuse_ok [OF assms(1) w(4) u1(2)] obtain u2 where
    u2: "diffuse N (uPrev s) u1 ''left_right_walls'' = Some u2" "well_sized N u2" by blast
  from diffuse_ok [OF assms(1) w(5) v1(2)] obtain v2 where
    v2: "diffuse N (vPrev s) v1 ''top_bottom_walls'' = Some v2" "well_sized N v2" by blast
  from project_ok [OF assms(1) u2(2) v2(2) u1(2) v1(2)] obtain u3 v3 p3 q3 where
    p3: "project N u2 v2 u1 v1 = Some (u3, v3, p3, q3)"
    "well_sized N u3" "well_sized N v3" "well_sized N p3" "well_sized N q3" by blast
  from advect_ok [OF assms(1) p3(4) p3(2) p3(2) p3(3)] obtain u4 where
    u4: "advect N p3 u3 u3 v3 ''left_right_walls'' = Some u4" "well_sized N u4" by blast
  from advect_ok [OF assms(1) p3(5) p3(3) p3(2) p3(3)] obtain v4 where
    v4: "advect N q3 v3 u3 v3 ''top_bottom_walls'' = Some v4" "well_sized N v4" by blast
  from project_ok [OF assms(1) u4(2) v4(2) p3(2) p3(3)] obtain u5 v5 p5 q5 where
    p5: "project N u4 v4 u3 v3 = Some (u5, v5, p5, q5)"
    "well_sized N u5" "well_sized N v5" "well_sized N p5" "well_sized N q5" by blast
  show ?thesis
    using u1 v1 u2 v2 p3 u4 v4 p5 w
    by (cases s) (simp add: velocityStep_def state_ok_def Let_def)
qed

lemma densityStep_ok:
  assumes "1 \<le> N" "state_ok N s"
  shows "\<exists>s'. densityStep N s = Some s' \<and> state_ok N s'"
proof -
  from assms(2) have w: "well_sized N (u s)" "well_sized N (v s)" "well_sized N (d s)"
    "well_sized N (uPrev s)" "well_sized N (vPrev s)" "well_sized N (dPrev s)"
    "well_sized N (dSource s)" "well_sized N (uSource s)" "well_sized N (vSource s)"
    by (simp_all add: state_ok_def)
  from addSource_ok [OF w(3) w(7)] obtain d1 where
    d1: "addSource N (d s) (dSource s) = Some d1" "well_sized N d1" by blast
  from diffuse_ok [OF assms(1) w(6) d1(2)] obtain d2 where
    d2: "diffuse N (dPrev s) d1 ''continuous'' = Some d2" "well_sized N d2" by blast
  from advect_ok [OF assms(1) d1(2) d2(2) w(1) w(2)] obtain d3 where
    d3: "advect N d1 d2 (u s) (v s) ''continuous'' = Some d3" "well_sized N d3" by blast
  show ?thesis
    using d1 d2 d3 w
    by (cases s) (simp add: densityStep_def state_ok_def Let_def)
qed

text \<open>
  Claim C3 (stepper order). The source's tick, which injects the density source at the
  start of the density phase, equals on every state the pipeline \<open>step_spec\<close>, which
  injects all three sources first; on a state of well-sized buffers the tick returns a
  state of well-sized buffers.
\<close>

theorem step_refines_spec:
  "step N s = step_spec N s \<and>
   (1 \<le> N \<and> state_ok N s \<longrightarrow> (\<exists>s'. step N s = Some s' \<and> state_ok N s'))"
proof
  show "step N s = step_spec N s"
  proof (cases "addSource N (d s) (dSource s)")
    case None
    then show ?thesis
      by (cases s) (simp add: step_def velocityStep_def densityStep_def step_spec_def Let_def
          split_def)
  next
    case (Some d1)
    then show ?thesis
      by (cases s) (simp add: step_def velocityStep_def densityStep_def step_spec_def Let_def
          split_def)
  qed
  show "1 \<le> N \<and> state_ok N s \<longrightarrow> (\<exists>s'. step N s = Some s' \<and> state_ok N s')"
  proof
    assume a: "1 \<le> N \<and> state_ok N s"
    then obtain s1 where s1: "velocityStep N s = Some s1" "state_ok N s1"
      using velocityStep_ok by blast
    from densityStep_ok [OF _ s1(2)] a s1(1)
    show "\<exists>s'. step N s = Some s' \<and> state_ok N s'" by (simp add: step_def)
  qed
qed

theorem step_refines_spec_witness:
  "step 1 demo_state = step_spec 1 demo_state \<and>
   (\<exists>s'. step 1 demo_state = Some s' \<and> state_ok 1 s')"
proof -
  have "1 \<le> (1::int) \<and> state_ok 1 demo_state"
    by (simp add: state_ok_def demo_state_def well_sized_def size_grid_def)
  with step_refines_spec [of 1 demo_state] show ?thesis by blast
qed

section \<open>The projector and the divergence it leaves\<close>

lemma divergence_stage_zero:
  assumes "1 \<le> N" "well_sized N U" "well_sized N V" "well_sized N D"
    and "\<And>i j. interior N i j \<Longrightarrow> divergence N U V i j = 0"
  shows "for_loop [1..N] (\<lambda>i. for_loop [1..N] (\<lambda>j. divergence_cell N (1.0 / real_of_int N) U V i j)) D
           \<bind> (\<lambda>dv. setBoundary N dv ''continuous'') = Some (zeros N)"
proof -
  let ?h = "1.0 / real_of_int N"
  let ?g = "\<lambda>i j. ((cell N U (i + 1) j - cell N U (i - 1) j) / (- 2)) * ?h +
            ((cell N V i (j + 1) - cell N V i (j - 1)) / (- 2)) * ?h"
  have "\<exists>y. for_loop [1..N] (\<lambda>i. for_loop [1..N] (\<lambda>j. divergence_cell N ?h U V i j)) D = Some y \<and>
      well_sized N y \<and>
      (\<forall>a b. in_grid N a b \<longrightarrow> cell N y a b = (if interior N a b then ?g a b else cell N D a b))"
    by (rule interior_pass_pointwise [OF assms(1,4)])
      (simp add: divergence_cell_eq assms(2,3))
  then obtain y where
    y: "for_loop [1..N] (\<lambda>i. for_loop [1..N] (\<lambda>j. divergence_cell N ?h U V i j)) D = Some y"
      "well_sized N y"
      "\<And>a b. in_grid N a b \<Longrightarrow> cell N y a b = (if interior N a b then ?g a b else cell N D a b)"
    by blast
  have "cell N y i j = cell N (zeros N) i j" if ij: "interior N i j" for i j
    using y(3) [OF interior_in_grid(1) [OF ij]] ij assms(5) [OF ij]
    by (simp add: divergence_def Let_def cell_zeros interior_in_grid(1))
  then have "setBoundary N y ''continuous'' = setBoundary N (zeros N) ''continuous''"
    using assms(1) y(2) by (intro setBoundary_interior_determined) simp_all
  then show ?thesis using y(1) by (simp add: setBoundary_zeros [OF assms(1)])
qed

lemma wall_cells_kept:
  assumes "1 \<le> N" "walls_ok N U V" "interior N i j"
  shows "bnd N ''left_right_walls'' U (i + 1) j = cell N U (i + 1) j"
    and "bnd N ''left_right_walls'' U (i - 1) j = cell N U (i - 1) j"
    and "bnd N ''top_bottom_walls'' V i (j + 1) = cell N V i (j + 1)"
    and "bnd N ''top_bottom_walls'' V i (j - 1) = cell N V i (j - 1)"
proof -
  from assms(3) have b: "1 \<le> i" "i \<le> N" "1 \<le> j" "j \<le> N" by (simp_all add: interior_def)
  have w: "cell N U 0 j = - cell N U 1 j" "cell N U (N + 1) j = - cell N U N j"
    "cell N V i 0 = - cell N V i 1" "cell N V i (N + 1) = - cell N V i N"
    using assms(2) b by (simp_all add: walls_ok_def)
  show "bnd N ''left_right_walls'' U (i + 1) j = cell N U (i + 1) j"
  proof (cases "i = N")
    case True
    then have "on_edge N (i + 1) j" using b by (simp add: on_edge_def)
    then show ?thesis using True b w assms(1)
      by (simp add: bnd_edge edge_value_def col_sign_def)
  next
    case False
    then have "interior N (i + 1) j" using b by (simp add: interior_def)
    then show ?thesis by (simp add: bnd_interior [OF assms(1)])
  qed
  show "bnd N ''left_right_walls'' U (i - 1) j = cell N U (i - 1) j"
  proof (cases "i = 1")
    case True
    then have "on_edge N (i - 1) j" using b by (simp add: on_edge_def)
    then show ?thesis using True b w assms(1)
      by (simp add: bnd_edge edge_value_def col_sign_def)
  next
    case False
    then have "interior N (i - 1) j" using b by (simp add: interior_def)
    then show ?thesis by (simp add: bnd_interior [OF assms(1)])
  qed
  show "bnd N ''top_bottom_walls'' V i (j + 1) = cell N V i (j + 1)"
  proof (cases "j = N")
    case True
    then have "on_edge N i (j + 1)" using b by (simp add: on_edge_def)
    then show ?thesis using True b w assms(1)
      by (simp add: bnd_edge edge_value_def row_sign_def)
  next
    case False
    then have "interior N i (j + 1)" using b by (simp add: interior_def)
    then show ?thesis by (simp add: bnd_interior [OF assms(1)])
  qed
  show "bnd N ''top_bottom_walls'' V i (j - 1) = cell N V i (j - 1)"
  proof (cases "j = 1")
    case True
    then have "on_edge N i (j - 1)" using b by (simp add: on_edge_def)
    then show ?thesis using True b w assms(1)
      by (simp add: bnd_edge edge_value_def row_sign_def)
  next
    case False
    then have "interior N i (j - 1)" using b by (simp add: interior_def)
    then show ?thesis by (simp add: bnd_interior [OF assms(1)])
  qed
qed

text \<open>
  The exact case. If the input velocity has zero discrete divergence at every interior
  cell and satisfies the wall conditions on its ghost edges (\<open>u\<close> negated across the left
  and right walls, \<open>v\<close> across the top and bottom walls), then \<open>project\<close> returns, and the
  divergence recomputed from its result is exactly zero at every interior cell \<open>(i, j)\<close>.
\<close>

lemma project_keeps_divergence_free:
  assumes "1 \<le> N" and "well_sized N U" and "well_sized N V"
    and "well_sized N P" and "well_sized N D"
    and "walls_ok N U V"
    and "\<forall>i j. interior N i j \<longrightarrow> divergence N U V i j = 0"
    and "interior N i j"
  shows "divergence_after_project N U V P D i j = Some 0"
proof -
  from setBoundary_cells [OF assms(1,2), of "''left_right_walls''"] obtain U' where
    U': "setBoundary N U ''left_right_walls'' = Some U'"
      "\<And>a b. in_grid N a b \<Longrightarrow> cell N U' a b = bnd N ''left_right_walls'' U a b"
    by blast
  from setBoundary_cells [OF assms(1,3), of "''top_bottom_walls''"] obtain V' where
    V': "setBoundary N V ''top_bottom_walls'' = Some V'"
      "\<And>a b. in_grid N a b \<Longrightarrow> cell N V' a b = bnd N ''top_bottom_walls'' V a b"
    by blast
  have dv: "for_loop [1..N] (\<lambda>i. for_loop [1..N]
        (\<lambda>j. divergence_cell N (1.0 / real_of_int N) U V i j)) D
        \<bind> (\<lambda>dv. setBoundary N dv ''continuous'') = Some (zeros N)"
    using assms(1,2,3,5) by (rule divergence_stage_zero) (use assms(7) in blast)
  have pr: "project N U V P D = Some (U', V', zeros N, zeros N)"
    unfolding project_zero_filled [OF assms(4)] dv
    by (simp add: pressure_solve_zeros [OF assms(1)] gradient_pass_zero_pressure assms(2,3)
        U'(1) V'(1))
  have "divergence N U' V' i j = divergence N U V i j"
    using interior_in_grid [OF assms(8)] wall_cells_kept [OF assms(1,6,8)]
    by (simp add: divergence_def U'(2) V'(2))
  then have "divergence N U' V' i j = 0" using assms(7,8) by simp
  then show ?thesis by (simp add: divergence_after_project_def pr)
qed

lemma project_keeps_divergence_free_example:
  "divergence_after_project 2
     [0, 1, 1, 0, - 1, 1, 1, - 1, 1, - 1, - 1, 1, 0, - 1, - 1, 0]
     [0, 1, - 1, 0, - 1, - 1, 1, 1, - 1, - 1, 1, 1, 0, 1, - 1, 0]
     [1, 2, 3, 4, 5, 6, 7, 8, 9, 10, 11, 12, 13, 14, 15, 16]
     [0, 0, 0, 0, 0, 0, 0, 0, 0, 0, 0, 0, 0, 0, 0, 0] 2 1 = Some 0"
proof (rule project_keeps_divergence_free)
  let ?U = "[0, 1, 1, 0, - 1, 1, 1, - 1, 1, - 1, - 1, 1, 0, - 1, - 1, 0] :: field"
  let ?V = "[0, 1, - 1, 0, - 1, - 1, 1, 1, - 1, - 1, 1, 1, 0, 1, - 1, 0] :: field"
  have k: "k = 1 \<or> k = 2" if "1 \<le> k \<and> k \<le> 2" for k :: int using that by arith
  show "walls_ok 2 ?U ?V"
    unfolding walls_ok_def by (auto dest!: k simp: cell_def index_def)
  show "\<forall>i j. interior 2 i j \<longrightarrow> divergence 2 ?U ?V i j = 0"
  proof (intro allI impI)
    fix i j :: int assume "interior 2 i j"
    then have "(i = 1 \<or> i = 2) \<and> (j = 1 \<or> j = 2)" by (auto simp: interior_def)
    then show "divergence 2 ?U ?V i j = 0"
      by (auto simp: divergence_def cell_def index_def)
  qed
qed (simp_all add: well_sized_def size_grid_def interior_def)

text \<open>
  A residual at unit magnitude. At \<open>N = 2\<close>, for the velocity that is \<open>1\<close> in cell \<open>(1, 1)\<close>
  of \<open>u\<close> with \<open>setBoundary\<close> applied and \<open>0\<close> in \<open>v\<close>, the ten sweeps leave the divergence
  \<open>- 2098177 / 16777216\<close> (about \<open>- 0.125\<close>) in cell \<open>(1, 1)\<close>.
\<close>

lemma project_residual_small_grid:
  "project 2 [0, 1, 0, 0, - 1, 1, 0, 0, 0, 0, 0, 0, 0, 0, 0, 0]
     [0, 0, 0, 0, 0, 0, 0, 0, 0, 0, 0, 0, 0, 0, 0, 0]
     [0, 0, 0, 0, 0, 0, 0, 0, 0, 0, 0, 0, 0, 0, 0, 0]
     [0, 0, 0, 0, 0, 0, 0, 0, 0, 0, 0, 0, 0, 0, 0, 0] =
   Some ([0, 13633537 / 16777216, - (3143679 / 16777216), 0, - (13633537 / 16777216), 13633537 / 16777216, - (3143679 / 16777216), 3143679 / 16777216, 2094081 / 33554432, - (2094081 / 33554432), - (2094081 / 33554432), 2094081 / 33554432, 0, - (2094081 / 33554432), - (2094081 / 33554432), 0],
     [0, 1048575 / 16777216, - (2096127 / 33554432), 0, - (1048575 / 16777216), - (1048575 / 16777216), 2096127 / 33554432, 2096127 / 33554432, - (1048575 / 16777216), - (1048575 / 16777216), 2096127 / 33554432, 2096127 / 33554432, 0, 1048575 / 16777216, - (2096127 / 33554432), 0],
     [- (873301 / 8388608), - (873301 / 8388608), 1397077 / 16777216, 1397077 / 16777216, - (873301 / 8388608), - (873301 / 8388608), 1397077 / 16777216, 1397077 / 16777216, - (698027 / 16777216), - (698027 / 16777216), 698027 / 33554432, 698027 / 33554432, - (698027 / 16777216), - (698027 / 16777216), 698027 / 33554432, 698027 / 33554432],
     [- (1 / 4), - (1 / 4), 1 / 4, 1 / 4, - (1 / 4), - (1 / 4), 1 / 4, 1 / 4, 0, 0, 0, 0, 0, 0, 0, 0]) \<and>
   \<not> \<bar>divergence 2 [0, 13633537 / 16777216, - (3143679 / 16777216), 0, - (13633537 / 16777216), 13633537 / 16777216, - (3143679 / 16777216), 3143679 / 16777216, 2094081 / 33554432, - (2094081 / 33554432), - (2094081 / 33554432), 2094081 / 33554432, 0, - (2094081 / 33554432), - (2094081 / 33554432), 0]
     [0, 1048575 / 16777216, - (2096127 / 33554432), 0, - (1048575 / 16777216), - (1048575 / 16777216), 2096127 / 33554432, 2096127 / 33554432, - (1048575 / 16777216), - (1048575 / 16777216), 2096127 / 33554432, 2096127 / 33554432, 0, 1048575 / 16777216, - (2096127 / 33554432), 0] 1 1\<bar> \<le> 1 / 10000"
proof
  show "project 2 [0, 1, 0, 0, - 1, 1, 0, 0, 0, 0, 0, 0, 0, 0, 0, 0]
     [0, 0, 0, 0, 0, 0, 0, 0, 0, 0, 0, 0, 0, 0, 0, 0]
     [0, 0, 0, 0, 0, 0, 0, 0, 0, 0, 0, 0, 0, 0, 0, 0]
     [0, 0, 0, 0, 0, 0, 0, 0, 0, 0, 0, 0, 0, 0, 0, 0] =
   Some ([0, 13633537 / 16777216, - (3143679 / 16777216), 0, - (13633537 / 16777216), 13633537 / 16777216, - (3143679 / 16777216), 3143679 / 16777216, 2094081 / 33554432, - (2094081 / 33554432), - (2094081 / 33554432), 2094081 / 33554432, 0, - (2094081 / 33554432), - (2094081 / 33554432), 0],
     [0, 1048575 / 16777216, - (2096127 / 33554432), 0, - (1048575 / 16777216), - (1048575 / 16777216), 2096127 / 33554432, 2096127 / 33554432, - (1048575 / 16777216), - (1048575 / 16777216), 2096127 / 33554432, 2096127 / 33554432, 0, 1048575 / 16777216, - (2096127 / 33554432), 0],
     [- (873301 / 8388608), - (873301 / 8388608), 1397077 / 16777216, 1397077 / 16777216, - (873301 / 8388608), - (873301 / 8388608), 1397077 / 16777216, 1397077 / 16777216, - (698027 / 16777216), - (698027 / 16777216), 698027 / 33554432, 698027 / 33554432, - (698027 / 16777216), - (698027 / 16777216), 698027 / 33554432, 698027 / 33554432],
     [- (1 / 4), - (1 / 4), 1 / 4, 1 / 4, - (1 / 4), - (1 / 4), 1 / 4, 1 / 4, 0, 0, 0, 0, 0, 0, 0, 0])"
    by (simp add: upto.simps project_def Let_def size_grid_def index_def rd_def wr_def
      divergence_cell_def pressure_cell_def gradient_cell_def
      setBoundary_def setBoundary_row_def setBoundary_col_def setBoundary_corners_def)
  show "\<not> \<bar>divergence 2 [0, 13633537 / 16777216, - (3143679 / 16777216), 0, - (13633537 / 16777216), 13633537 / 16777216, - (3143679 / 16777216), 3143679 / 16777216, 2094081 / 33554432, - (2094081 / 33554432), - (2094081 / 33554432), 2094081 / 33554432, 0, - (2094081 / 33554432), - (2094081 / 33554432), 0]
     [0, 1048575 / 16777216, - (2096127 / 33554432), 0, - (1048575 / 16777216), - (1048575 / 16777216), 2096127 / 33554432, 2096127 / 33554432, - (1048575 / 16777216), - (1048575 / 16777216), 2096127 / 33554432, 2096127 / 33554432, 0, 1048575 / 16777216, - (2096127 / 33554432), 0] 1 1\<bar> \<le> 1 / 10000"
    by (simp add: divergence_def cell_def index_def)
qed

section \<open>The pressure sweeps seen from far away\<close>

text \<open>
  With the divergence supported on the last two cells of the top interior row, the
  pressure after \<open>k\<close> sweeps vanishes at every cell further than \<open>k - 1\<close> steps from
  them, and the cell \<open>(N - k, N)\<close> on the front holds \<open>e / 4\<^sup>k\<close>.
\<close>

lemma cl_interior: "1 \<le> N \<Longrightarrow> in_grid N a b \<Longrightarrow> interior N (cl N a) (cl N b)"
  by (auto simp: cl_def interior_def in_grid_def)

lemma far_cl: "2 \<le> N \<Longrightarrow> far N k (cl N a) (cl N b) = far N k a b"
  by (auto simp: far_def cl_def max_def min_def)

lemma bnd_continuous:
  assumes "1 \<le> N" "in_grid N a b"
  shows "bnd N ''continuous'' y a b = cell N y (cl N a) (cl N b)"
proof -
  have e: "edge_value N ''continuous'' y a' b' = cell N y (cl N a') (cl N b')"
    if "on_edge N a' b'" for a' b'
    using that assms(1) unfolding on_edge_def
    by (elim disjE conjE) (simp_all add: edge_value_def row_sign_def col_sign_def cl_def)
  from grid_cases [OF assms(2)]
  consider "interior N a b" | "on_edge N a b" | "is_corner N a b" by blast
  then show ?thesis
  proof cases
    case 1
    then show ?thesis using assms(1)
      by (simp add: bnd_interior) (simp add: interior_def cl_def)
  next
    case 2
    then show ?thesis using assms(1) by (simp add: bnd_edge e)
  next
    case 3
    have o: "on_edge N 0 1" "on_edge N 1 0" "on_edge N (N + 1) 1" "on_edge N N 0"
      "on_edge N 0 N" "on_edge N 1 (N + 1)" "on_edge N (N + 1) N" "on_edge N N (N + 1)"
      using assms(1) by (simp_all add: on_edge_def)
    have c: "cl N 0 = 1" "cl N 1 = 1" "cl N N = N" "cl N (N + 1) = N"
      using assms(1) by (simp_all add: cl_def)
    from 3 show ?thesis using assms(1) unfolding bnd_def is_corner_def
      by (elim conjE disjE) (simp_all add: o [THEN e] c)
  qed
qed

lemma cl_mono: "a \<le> a' \<Longrightarrow> cl M a \<le> cl M a'"
  unfolding cl_def by arith

lemma cl_succ: "cl M (a + 1) \<le> cl M a + 1"
  unfolding cl_def by arith

lemma far_mono: "far N (k + 1) a b \<Longrightarrow> far N k a b"
  by (simp add: far_def)

lemma far_one: "0 \<le> k \<Longrightarrow> far N (k + 1) a b \<Longrightarrow> far N 1 a b"
  by (simp add: far_def)

lemma far_west: "far N k a b \<Longrightarrow> far N k (a - 1) b"
  using cl_mono [of "a - 1" a "N - 1"] by (simp add: far_def)

lemma far_south: "far N k a b \<Longrightarrow> far N k a (b - 1)"
  using cl_mono [of "b - 1" b N] by (simp add: far_def)

lemma far_east: "far N (k + 1) a b \<Longrightarrow> far N k (a + 1) b"
  using cl_succ [of "N - 1" a] by (simp add: far_def)

lemma far_north: "far N (k + 1) a b \<Longrightarrow> far N k a (b + 1)"
  using cl_succ [of N b] by (simp add: far_def)

lemma not_visited_east: "\<not> visited N i j (i + 1) j"
  by (simp add: visited_def)

lemma not_visited_north: "\<not> visited N i j i (j + 1)"
  by (simp add: visited_def)

lemma pressure_pass_wave:
  assumes N: "14 \<le> N" and k: "0 \<le> k" "k \<le> 9"
    and w: "wave N e k p"
    and dv: "well_sized N dv"
      "\<And>i j. interior N i j \<Longrightarrow> far N 1 i j \<Longrightarrow> cell N dv i j = 0"
      "cell N dv (N - 1) N = e"
  shows "\<exists>y. for_loop [1..N] (\<lambda>i. for_loop [1..N] (\<lambda>j. pressure_cell N dv i j)) p = Some y \<and>
           well_sized N y \<and>
           (\<forall>a b. interior N a b \<longrightarrow>
              (far N (k + 1) a b \<longrightarrow> cell N y a b = 0) \<and>
              (a = N - (k + 1) \<and> b = N \<longrightarrow> cell N y a b = e / 4 ^ nat (k + 1)))"
proof -
  let ?f = "\<lambda>y i j. (cell N y (i - 1) j + cell N y (i + 1) j + cell N y i (j - 1) +
            cell N y i (j + 1) + cell N dv i j) / 4"
  let ?Q = "\<lambda>a b val. (far N (k + 1) a b \<longrightarrow> val = 0) \<and>
            (a = N - (k + 1) \<and> b = N \<longrightarrow> val = e / 4 ^ nat (k + 1))"
  from w have wp: "well_sized N p"
    and z: "\<And>a b. in_grid N a b \<Longrightarrow> far N k a b \<Longrightarrow> cell N p a b = 0"
    and fr: "1 \<le> k \<Longrightarrow> cell N p (N - k) N = e / 4 ^ nat k"
    by (simp_all add: wave_def)
  have "\<exists>y. for_loop [1..N] (\<lambda>i. for_loop [1..N] (\<lambda>j. pressure_cell N dv i j)) p = Some y \<and>
      well_sized N y \<and>
      (\<forall>a b. in_grid N a b \<longrightarrow>
         (if interior N a b then ?Q a b (cell N ((\<lambda>s. s) y) a b)
          else cell N ((\<lambda>s. s) y) a b = cell N ((\<lambda>s. s) p) a b))"
  proof (rule interior_pass_rule [where get = "\<lambda>s. s" and ok = "well_sized N" and f = ?f and Q = ?Q])
    show "1 \<le> N" using N by simp
    show "well_sized N p" by (rule wp)
  next
    fix i j y assume "interior N i j" "well_sized N y"
    then show "\<exists>s'. pressure_cell N dv i j y = Some s' \<and> well_sized N s' \<and>
        s' = upd N y i j (?f y i j)"
      by (simp add: pressure_cell_eq dv(1))
  next
    fix i j y
    assume ij: "interior N i j" and wy: "well_sized N y"
      and vis: "\<And>a b. in_grid N a b \<Longrightarrow> visited N i j a b \<Longrightarrow> ?Q a b (cell N y a b)"
      and unv: "\<And>a b. in_grid N a b \<Longrightarrow> \<not> visited N i j a b \<Longrightarrow> cell N y a b = cell N p a b"
    note g = interior_in_grid [OF ij]
    have new0: "cell N y a b = 0" if "in_grid N a b" "far N (k + 1) a b" for a b
    proof (cases "visited N i j a b")
      case True
      from vis [OF that(1) True] that(2) show ?thesis by simp
    next
      case False
      from unv [OF that(1) False] z [OF that(1) far_mono [OF that(2)]] show ?thesis by simp
    qed
    have old0: "cell N y a b = 0" if "in_grid N a b" "\<not> visited N i j a b" "far N k a b" for a b
      using unv [OF that(1,2)] z [OF that(1,3)] by simp
    show "?Q i j (?f y i j)"
    proof (intro conjI impI)
      assume f: "far N (k + 1) i j"
      have "cell N y (i - 1) j = 0" using g(2) far_west [OF f] by (rule new0)
      moreover have "cell N y i (j - 1) = 0" using g(4) far_south [OF f] by (rule new0)
      moreover have "cell N y (i + 1) j = 0"
        using g(3) not_visited_east far_east [OF f] by (rule old0)
      moreover have "cell N y i (j + 1) = 0"
        using g(5) not_visited_north far_north [OF f] by (rule old0)
      moreover have "cell N dv i j = 0" using ij far_one [OF k(1) f] by (rule dv(2))
      ultimately show "?f y i j = 0" by simp
    next
      assume "i = N - (k + 1) \<and> j = N"
      then have i: "i = N - (k + 1)" and j: "j = N" by simp_all
      have "far N (k + 1) (i - 1) j" using i j N k by (simp add: far_def cl_def)
      with g(2) have c1: "cell N y (i - 1) j = 0" by (rule new0)
      have "far N (k + 1) i (j - 1)" using i j N k by (simp add: far_def cl_def)
      with g(4) have c2: "cell N y i (j - 1) = 0" by (rule new0)
      have "far N k i (j + 1)" using i j N k by (simp add: far_def cl_def)
      with g(5) not_visited_north have c3: "cell N y i (j + 1) = 0" by (rule old0)
      have c4: "cell N y (i + 1) j = cell N p (N - k) N"
        using unv [OF g(3) not_visited_east] i j by simp
      have "cell N p (N - k) N + cell N dv i j = e / 4 ^ nat k"
      proof (cases "k = 0")
        case True
        have "far N k N N" using N True by (simp add: far_def cl_def)
        moreover have "in_grid N N N" using N by (simp add: in_grid_def)
        ultimately have "cell N p N N = 0" by (intro z)
        then show ?thesis using True i j dv(3) by simp
      next
        case False
        then have k1: "1 \<le> k" using k by simp
        have "far N 1 i j" using i j N k k1 by (simp add: far_def cl_def)
        with ij have "cell N dv i j = 0" by (rule dv(2))
        then show ?thesis using fr [OF k1] by simp
      qed
      moreover have "nat (k + 1) = Suc (nat k)" using k by simp
      ultimately show "?f y i j = e / 4 ^ nat (k + 1)"
        using c1 c2 c3 c4 by simp
    qed
  qed
  then show ?thesis by (auto simp: interior_in_grid(1))
qed

lemma pressure_sweep_wave:
  assumes N: "14 \<le> N" and k: "0 \<le> k" "k \<le> 9"
    and w: "wave N e k p"
    and dv: "well_sized N dv"
      "\<And>i j. interior N i j \<Longrightarrow> far N 1 i j \<Longrightarrow> cell N dv i j = 0"
      "cell N dv (N - 1) N = e"
  shows "\<exists>q. do { p \<leftarrow> for_loop [1..N] (\<lambda>i. for_loop [1..N] (\<lambda>j. pressure_cell N dv i j)) p;
                  setBoundary N p ''continuous'' } = Some q \<and> wave N e (k + 1) q"
proof -
  have N1: "1 \<le> N" and N2: "2 \<le> N" using N by simp_all
  from pressure_pass_wave [OF assms] obtain y where
    y: "for_loop [1..N] (\<lambda>i. for_loop [1..N] (\<lambda>j. pressure_cell N dv i j)) p = Some y"
      "well_sized N y"
      "\<And>a b. interior N a b \<Longrightarrow> far N (k + 1) a b \<Longrightarrow> cell N y a b = 0"
      "cell N y (N - (k + 1)) N = e / 4 ^ nat (k + 1)"
  proof -
    from pressure_pass_wave [OF assms] obtain y where
      a: "for_loop [1..N] (\<lambda>i. for_loop [1..N] (\<lambda>j. pressure_cell N dv i j)) p = Some y"
        "well_sized N y"
        "\<forall>a b. interior N a b \<longrightarrow>
              (far N (k + 1) a b \<longrightarrow> cell N y a b = 0) \<and>
              (a = N - (k + 1) \<and> b = N \<longrightarrow> cell N y a b = e / 4 ^ nat (k + 1))"
      by blast
    have "interior N (N - (k + 1)) N" using N k by (simp add: interior_def)
    with a(3) have "cell N y (N - (k + 1)) N = e / 4 ^ nat (k + 1)" by blast
    with a that show ?thesis by blast
  qed
  from setBoundary_cells [OF N1 y(2), of "''continuous''"] obtain q where
    q: "setBoundary N y ''continuous'' = Some q" "well_sized N q"
      "\<And>a b. in_grid N a b \<Longrightarrow> cell N q a b = bnd N ''continuous'' y a b"
    by blast
  have c: "cell N q a b = cell N y (cl N a) (cl N b)" if "in_grid N a b" for a b
    using q(3) [OF that] bnd_continuous [OF N1 that] by simp
  have "cell N q a b = 0" if "in_grid N a b" "far N (k + 1) a b" for a b
    using c [OF that(1)] cl_interior [OF N1 that(1)] that(2) far_cl [OF N2, of "k + 1" a b]
    by (simp add: y(3))
  moreover have "cell N q (N - (k + 1)) N = e / 4 ^ nat (k + 1)"
  proof -
    have "in_grid N (N - (k + 1)) N" using N k by (simp add: in_grid_def)
    from c [OF this] show ?thesis using N k y(4) by (simp add: cl_def)
  qed
  ultimately have "wave N e (k + 1) q" using q(2) by (simp add: wave_def)
  then show ?thesis by (auto simp: y(1) q(1))
qed

lemma pressure_solve_wave:
  assumes N: "14 \<le> N"
    and dv: "well_sized N dv"
      "\<And>i j. interior N i j \<Longrightarrow> far N 1 i j \<Longrightarrow> cell N dv i j = 0"
      "cell N dv (N - 1) N = e"
  shows "\<exists>q. for_loop [0..10 - 1] (\<lambda>k p. do {
            p \<leftarrow> for_loop [1..N] (\<lambda>i. for_loop [1..N] (\<lambda>j. pressure_cell N dv i j)) p;
            setBoundary N p ''continuous'' }) (zeros N) = Some q \<and> wave N e 10 q"
proof -
  have "\<exists>q. for_loop [0..9] (\<lambda>k p. do {
            p \<leftarrow> for_loop [1..N] (\<lambda>i. for_loop [1..N] (\<lambda>j. pressure_cell N dv i j)) p;
            setBoundary N p ''continuous'' }) (zeros N) = Some q \<and> wave N e (9 + 1) q"
  proof (rule for_loop_upto_rule [where I = "\<lambda>k. wave N e k"])
    show "(0::int) \<le> 9 + 1" by simp
    show "wave N e 0 (zeros N)" by (simp add: wave_def cell_zeros)
  next
    fix k y assume "0 \<le> k" "k \<le> 9" "wave N e k y"
    with N show "\<exists>y'. do { p \<leftarrow> for_loop [1..N] (\<lambda>i. for_loop [1..N] (\<lambda>j. pressure_cell N dv i j)) y;
        setBoundary N p ''continuous'' } = Some y' \<and> wave N e (k + 1) y'"
      by (rule pressure_sweep_wave) (fact dv)+
  qed
  then show ?thesis by simp
qed

lemma well_sized_jet [simp]: "well_sized N (jet N c)"
  by (simp add: jet_def)

lemma cell_jet:
  assumes "1 \<le> N" "in_grid N a b"
  shows "cell N (jet N c) a b =
    (if a = N \<and> b = N + 1 then c else if a = N + 1 \<and> b = N then - c
     else if a = N \<and> b = N then c else 0)"
proof -
  have g: "in_grid N N N" "in_grid N (N + 1) N" "in_grid N N (N + 1)"
    using assms(1) by (simp_all add: in_grid_def)
  show ?thesis using assms(2) g by (simp add: jet_def cell_upd cell_zeros)
qed

lemma walls_ok_jet: "2 \<le> N \<Longrightarrow> walls_ok N (jet N c) (zeros N)"
  by (simp add: walls_ok_def cell_jet cell_zeros in_grid_def)

text \<open>\<open>jet N c\<close> is what \<open>setBoundary\<close> makes of the field that is \<open>c\<close> in cell \<open>(N, N)\<close>.\<close>

lemma setBoundary_jet:
  assumes "2 \<le> N"
  shows "setBoundary N (upd N (zeros N) N N c) ''left_right_walls'' = Some (jet N c)"
proof -
  have N1: "1 \<le> N" using assms by simp
  let ?x = "upd N (zeros N) N N c"
  have cx: "cell N ?x a b = (if a = N \<and> b = N then c else 0)" if "in_grid N a b" for a b
    using that N1 by (simp add: cell_upd cell_zeros in_grid_def)
  from setBoundary_cells [OF N1, of ?x "''left_right_walls''"] obtain z where
    z: "setBoundary N ?x ''left_right_walls'' = Some z" "well_sized N z"
      "\<And>a b. in_grid N a b \<Longrightarrow> cell N z a b = bnd N ''left_right_walls'' ?x a b"
    by auto
  have ev: "edge_value N ''left_right_walls'' ?x a b = cell N (jet N c) a b"
    if "on_edge N a b" for a b
    using that assms unfolding on_edge_def
    by (elim disjE conjE)
      (simp_all add: edge_value_def row_sign_def col_sign_def cx cell_jet in_grid_def)
  have "cell N z a b = cell N (jet N c) a b" if ab: "in_grid N a b" for a b
  proof -
    from grid_cases [OF ab]
    consider "interior N a b" | "on_edge N a b" | "is_corner N a b" by blast
    then have "bnd N ''left_right_walls'' ?x a b = cell N (jet N c) a b"
    proof cases
      case 1
      then show ?thesis using N1 ab by (auto simp: bnd_interior cx cell_jet interior_def)
    next
      case 2
      then show ?thesis using N1 by (simp add: bnd_edge ev)
    next
      case 3
      have o: "on_edge N 0 1" "on_edge N 1 0" "on_edge N (N + 1) 1" "on_edge N N 0"
        "on_edge N 0 N" "on_edge N 1 (N + 1)" "on_edge N (N + 1) N" "on_edge N N (N + 1)"
        using N1 by (simp_all add: on_edge_def)
      from 3 show ?thesis using assms ab unfolding bnd_def is_corner_def
        by (elim conjE disjE) (simp_all add: o [THEN ev] cell_jet in_grid_def)
    qed
    then show ?thesis using z(3) [OF ab] by simp
  qed
  then have "z = jet N c" using assms z(2) by (intro field_eqI [of N]) simp_all
  with z(1) show ?thesis by simp
qed

lemma divergence_stage_jet:
  assumes N: "3 \<le> N" and D: "well_sized N D"
  shows "\<exists>dv. for_loop [1..N] (\<lambda>i. for_loop [1..N]
             (\<lambda>j. divergence_cell N (1.0 / real_of_int N) (jet N c) (zeros N) i j)) D
           \<bind> (\<lambda>dv. setBoundary N dv ''continuous'') = Some dv \<and>
         well_sized N dv \<and>
         (\<forall>i j. interior N i j \<and> far N 1 i j \<longrightarrow> cell N dv i j = 0) \<and>
         cell N dv (N - 1) N = (c / (- 2)) * (1 / real_of_int N)"
proof -
  have N1: "1 \<le> N" using N by simp
  let ?h = "1.0 / real_of_int N"
  let ?g = "\<lambda>i j. ((cell N (jet N c) (i + 1) j - cell N (jet N c) (i - 1) j) / (- 2)) * ?h +
            ((cell N (zeros N) i (j + 1) - cell N (zeros N) i (j - 1)) / (- 2)) * ?h"
  have "\<exists>y. for_loop [1..N] (\<lambda>i. for_loop [1..N]
        (\<lambda>j. divergence_cell N ?h (jet N c) (zeros N) i j)) D = Some y \<and>
      well_sized N y \<and>
      (\<forall>a b. in_grid N a b \<longrightarrow> cell N y a b = (if interior N a b then ?g a b else cell N D a b))"
    by (rule interior_pass_pointwise [OF N1 D]) (simp add: divergence_cell_eq)
  then obtain y where
    y: "for_loop [1..N] (\<lambda>i. for_loop [1..N]
        (\<lambda>j. divergence_cell N ?h (jet N c) (zeros N) i j)) D = Some y"
      "well_sized N y"
      "\<And>a b. in_grid N a b \<Longrightarrow> cell N y a b = (if interior N a b then ?g a b else cell N D a b)"
    by blast
  from setBoundary_cells [OF N1 y(2), of "''continuous''"] obtain dv where
    dv: "setBoundary N y ''continuous'' = Some dv" "well_sized N dv"
      "\<And>a b. in_grid N a b \<Longrightarrow> cell N dv a b = bnd N ''continuous'' y a b"
    by blast
  have inner: "cell N dv i j = ?g i j" if ij: "interior N i j" for i j
    using dv(3) [OF interior_in_grid(1) [OF ij]] y(3) [OF interior_in_grid(1) [OF ij]] ij
    by (simp add: bnd_interior [OF N1 ij])
  have "cell N dv i j = 0" if ij: "interior N i j" and f: "far N 1 i j" for i j
  proof -
    from ij f have "i \<le> N - 2 \<or> j \<le> N - 1"
      unfolding far_def cl_def interior_def by arith
    then show ?thesis
      using inner [OF ij] interior_in_grid [OF ij] ij N1
      by (auto simp: cell_jet cell_zeros interior_def)
  qed
  moreover have "cell N dv (N - 1) N = (c / (- 2)) * (1 / real_of_int N)"
  proof -
    have ij: "interior N (N - 1) N" using N by (simp add: interior_def)
    show ?thesis
      using inner [OF ij] interior_in_grid [OF ij] N
      by (simp add: cell_jet cell_zeros)
  qed
  ultimately show ?thesis using y(1) dv(1,2) by auto
qed

lemma gradient_pass_cells:
  assumes "1 \<le> N" "well_sized N U" "well_sized N V" "well_sized N p"
  shows "\<exists>U1 V1. for_loop [1..N] (\<lambda>i. for_loop [1..N] (\<lambda>j. gradient_cell N h p i j)) (U, V)
             = Some (U1, V1) \<and>
           well_sized N U1 \<and> well_sized N V1 \<and>
           (\<forall>a b. interior N a b \<longrightarrow>
              cell N U1 a b = cell N U a b - (cell N p (a + 1) b - cell N p (a - 1) b) / (2 * h) \<and>
              cell N V1 a b = cell N V a b - (cell N p a (b + 1) - cell N p a (b - 1)) / (2 * h))"
proof -
  let ?ok = "\<lambda>s :: field \<times> field. well_sized N (fst s) \<and> well_sized N (snd s)"
  let ?fu = "\<lambda>s i j. cell N (fst s) i j - (cell N p (i + 1) j - cell N p (i - 1) j) / (2 * h)"
  let ?fv = "\<lambda>s i j. cell N (snd s) i j - (cell N p i (j + 1) - cell N p i (j - 1)) / (2 * h)"
  let ?Qu = "\<lambda>a b val. val = cell N U a b - (cell N p (a + 1) b - cell N p (a - 1) b) / (2 * h)"
  let ?Qv = "\<lambda>a b val. val = cell N V a b - (cell N p a (b + 1) - cell N p a (b - 1)) / (2 * h)"
  let ?loop = "for_loop [1..N] (\<lambda>i. for_loop [1..N] (\<lambda>j. gradient_cell N h p i j)) (U, V)"
  have ru: "\<exists>x'. ?loop = Some x' \<and> ?ok x' \<and>
      (\<forall>a b. in_grid N a b \<longrightarrow>
         (if interior N a b then ?Qu a b (cell N (fst x') a b)
          else cell N (fst x') a b = cell N (fst (U, V)) a b))"
  proof (rule interior_pass_rule [where get = fst and ok = ?ok and f = ?fu and Q = ?Qu])
    show "1 \<le> N" by fact
    show "?ok (U, V)" using assms by simp
  next
    fix i j s assume "interior N i j" "?ok s"
    then show "\<exists>s'. gradient_cell N h p i j s = Some s' \<and> ?ok s' \<and>
        fst s' = upd N (fst s) i j (?fu s i j)"
      by (simp add: gradient_cell_eq assms(4))
  next
    fix i j s
    assume "interior N i j"
      and "\<And>a b. in_grid N a b \<Longrightarrow> \<not> visited N i j a b \<Longrightarrow>
             cell N (fst s) a b = cell N (fst (U, V)) a b"
    then show "?Qu i j (?fu s i j)"
      using not_visited_self [of N i j] interior_in_grid(1) [of N i j] by simp
  qed simp
  have rv: "\<exists>x'. ?loop = Some x' \<and> ?ok x' \<and>
      (\<forall>a b. in_grid N a b \<longrightarrow>
         (if interior N a b then ?Qv a b (cell N (snd x') a b)
          else cell N (snd x') a b = cell N (snd (U, V)) a b))"
  proof (rule interior_pass_rule [where get = snd and ok = ?ok and f = ?fv and Q = ?Qv])
    show "1 \<le> N" by fact
    show "?ok (U, V)" using assms by simp
  next
    fix i j s assume "interior N i j" "?ok s"
    then show "\<exists>s'. gradient_cell N h p i j s = Some s' \<and> ?ok s' \<and>
        snd s' = upd N (snd s) i j (?fv s i j)"
      by (simp add: gradient_cell_eq assms(4))
  next
    fix i j s
    assume "interior N i j"
      and "\<And>a b. in_grid N a b \<Longrightarrow> \<not> visited N i j a b \<Longrightarrow>
             cell N (snd s) a b = cell N (snd (U, V)) a b"
    then show "?Qv i j (?fv s i j)"
      using not_visited_self [of N i j] interior_in_grid(1) [of N i j] by simp
  qed simp
  from ru obtain x where x: "?loop = Some x" "?ok x"
    "\<And>a b. interior N a b \<Longrightarrow> ?Qu a b (cell N (fst x) a b)"
    using interior_in_grid(1) by (metis (no_types, lifting))
  from rv x(1) have "\<And>a b. interior N a b \<Longrightarrow> ?Qv a b (cell N (snd x) a b)"
    using interior_in_grid(1) by (metis (no_types, lifting) option.inject)
  with x show ?thesis by (cases x) auto
qed

lemma project_jet_divergence:
  assumes N: "14 \<le> N" and P: "well_sized N P" and D: "well_sized N D"
  shows "\<exists>U' V' P' D'. project N (jet N c) (zeros N) P D = Some (U', V', P', D') \<and>
           divergence N U' V' (N - 12) N = - c / (8388608 * real_of_int N)"
proof -
  have N1: "1 \<le> N" and N3: "3 \<le> N" using N by simp_all
  let ?h = "1.0 / real_of_int N"
  define e where "e = (c / (- 2)) * (1 / real_of_int N)"
  from divergence_stage_jet [OF N3 D, of c] obtain dv where
    dv: "for_loop [1..N] (\<lambda>i. for_loop [1..N]
             (\<lambda>j. divergence_cell N ?h (jet N c) (zeros N) i j)) D
           \<bind> (\<lambda>dv. setBoundary N dv ''continuous'') = Some dv"
      "well_sized N dv"
      "\<And>i j. interior N i j \<Longrightarrow> far N 1 i j \<Longrightarrow> cell N dv i j = 0"
      "cell N dv (N - 1) N = e"
    unfolding e_def by blast
  from pressure_solve_wave [OF N dv(2,3,4)] obtain q where
    q: "for_loop [0..10 - 1] (\<lambda>k p. do {
            p \<leftarrow> for_loop [1..N] (\<lambda>i. for_loop [1..N] (\<lambda>j. pressure_cell N dv i j)) p;
            setBoundary N p ''continuous'' }) (zeros N) = Some q"
      "wave N e 10 q"
    by blast
  from q(2) have wq: "well_sized N q"
    and z: "\<And>a b. in_grid N a b \<Longrightarrow> far N 10 a b \<Longrightarrow> cell N q a b = 0"
    and fr: "cell N q (N - 10) N = e / 4 ^ 10"
    by (simp_all add: wave_def)
  from gradient_pass_cells [OF N1 well_sized_jet well_sized_zeros wq, where h = ?h] obtain U1 V1 where
    g: "for_loop [1..N] (\<lambda>i. for_loop [1..N] (\<lambda>j. gradient_cell N ?h q i j)) (jet N c, zeros N)
          = Some (U1, V1)"
      "well_sized N U1" "well_sized N V1"
      "\<And>a b. interior N a b \<Longrightarrow>
         cell N U1 a b = cell N (jet N c) a b - (cell N q (a + 1) b - cell N q (a - 1) b) / (2 * ?h)"
      "\<And>a b. interior N a b \<Longrightarrow>
         cell N V1 a b = cell N (zeros N) a b - (cell N q a (b + 1) - cell N q a (b - 1)) / (2 * ?h)"
    by blast
  from setBoundary_cells [OF N1 g(2), of "''left_right_walls''"] obtain U2 where
    U2: "setBoundary N U1 ''left_right_walls'' = Some U2"
      "\<And>a b. in_grid N a b \<Longrightarrow> cell N U2 a b = bnd N ''left_right_walls'' U1 a b"
    by blast
  from setBoundary_cells [OF N1 g(3), of "''top_bottom_walls''"] obtain V2 where
    V2: "setBoundary N V1 ''top_bottom_walls'' = Some V2"
      "\<And>a b. in_grid N a b \<Longrightarrow> cell N V2 a b = bnd N ''top_bottom_walls'' V1 a b"
    by blast
  have pr: "project N (jet N c) (zeros N) P D = Some (U2, V2, q, dv)"
    unfolding project_zero_filled [OF P] dv(1) using q(1) g(1) U2(1) V2(1) by simp
  \<comment> \<open>the pressure around the cell \<open>(N - 12, N)\<close>\<close>
  have q0: "cell N q (N - 12) N = 0" "cell N q (N - 14) N = 0"
    "cell N q (N - 12) (N + 1) = 0" "cell N q (N - 12) (N - 1) = 0" "cell N q (N - 12) (N - 2) = 0"
    using N by (auto intro!: z simp: in_grid_def far_def cl_def)
  \<comment> \<open>the four velocity cells the divergence reads\<close>
  have i1: "interior N (N - 11) N" "interior N (N - 13) N" "interior N (N - 12) N"
    "interior N (N - 12) (N - 1)"
    using N by (simp_all add: interior_def)
  have gr: "in_grid N (N - 11) N" "in_grid N (N - 13) N" "in_grid N (N - 12) (N + 1)"
    "in_grid N (N - 12) (N - 1)"
    using N by (simp_all add: in_grid_def)
  have j0: "cell N (jet N c) (N - 11) N = 0" "cell N (jet N c) (N - 13) N = 0"
    using N gr by (simp_all add: cell_jet)
  have z0: "cell N (zeros N) (N - 12) N = 0" "cell N (zeros N) (N - 12) (N - 1) = 0"
    using N by (simp_all add: cell_zeros in_grid_def)
  have u_e: "cell N U2 (N - 11) N = - (e / 4 ^ 10) / (2 * ?h)"
    using U2(2) [OF gr(1)] g(4) [OF i1(1)] fr q0(1) j0(1)
    by (simp add: bnd_interior [OF N1 i1(1)])
  have u_w: "cell N U2 (N - 13) N = 0"
    using U2(2) [OF gr(2)] g(4) [OF i1(2)] q0(1,2) j0(2)
    by (simp add: bnd_interior [OF N1 i1(2)])
  have v_s: "cell N V2 (N - 12) (N - 1) = 0"
    using V2(2) [OF gr(4)] g(5) [OF i1(4)] q0(1,5) z0(2)
    by (simp add: bnd_interior [OF N1 i1(4)])
  have "on_edge N (N - 12) (N + 1)" using N by (simp add: on_edge_def)
  then have "bnd N ''top_bottom_walls'' V1 (N - 12) (N + 1) = - cell N V1 (N - 12) N"
    using N by (simp add: bnd_edge [OF N1] edge_value_def row_sign_def)
  then have v_n: "cell N V2 (N - 12) (N + 1) = 0"
    using V2(2) [OF gr(3)] g(5) [OF i1(3)] q0(3,4) z0(1) by simp
  have "divergence N U2 V2 (N - 12) N = - c / (8388608 * real_of_int N)"
    using N u_e u_w v_s v_n by (simp add: divergence_def e_def field_simps)
  with pr show ?thesis by blast
qed

lemma numCells_ok: "14 \<le> numCells"
  by (simp add: numCells_def)

text \<open>
  Claim C2 as stated fails at the source's resolution \<open>numCells = 50\<close>. The input \<open>u\<close> is
  \<open>10\<^sup>6\<close> in the interior cell \<open>(50, 50)\<close>, with the ghost cells \<open>setBoundary\<close> gives it
  (\<open>- 10\<^sup>6\<close> in \<open>(51, 50)\<close>, \<open>10\<^sup>6\<close> in \<open>(50, 51)\<close>), and zero elsewhere; \<open>v\<close> is zero.
  After \<open>project\<close> the divergence recomputed in the interior cell \<open>(38, 50)\<close> is
  \<open>- 625 / 262144\<close>, about \<open>- 0.0024\<close>, which is not within \<open>10\<^sup>-\<^sup>4\<close> of zero.
\<close>

theorem project_divergence_counterexample:
  "divergence_after_project numCells (jet numCells 1000000) (zeros numCells)
     (zeros numCells) (zeros numCells) 38 50 = Some (- (625 / 262144)) \<and>
   \<not> \<bar>- (625 / 262144 :: real)\<bar> \<le> 1 / 10000"
proof
  from project_jet_divergence [OF numCells_ok well_sized_zeros well_sized_zeros, of 1000000]
  obtain U' V' P' D' where
    r: "project numCells (jet numCells 1000000) (zeros numCells) (zeros numCells) (zeros numCells)
       = Some (U', V', P', D')"
      "divergence numCells U' V' (numCells - 12) numCells
         = - 1000000 / (8388608 * real_of_int numCells)"
    by blast
  from r(2) have "divergence numCells U' V' 38 50 = - (625 / 262144)"
    by (simp add: numCells_def)
  then show "divergence_after_project numCells (jet numCells 1000000) (zeros numCells)
     (zeros numCells) (zeros numCells) 38 50 = Some (- (625 / 262144))"
    by (simp add: divergence_after_project_def r(1))
  show "\<not> \<bar>- (625 / 262144 :: real)\<bar> \<le> 1 / 10000" by simp
qed

section \<open>A bound on the divergence the projector leaves\<close>

text \<open>
  Each of the ten sweeps lets the largest pressure grow by at most half the largest
  divergence, so the pressure stays within five times that divergence; the gradient
  step then moves each velocity cell by at most \<open>5 * Dm * N\<close>.
\<close>

lemma divergence_stage_cells:
  assumes "1 \<le> N" "well_sized N U" "well_sized N V" "well_sized N D"
  shows "\<exists>dv. for_loop [1..N] (\<lambda>i. for_loop [1..N]
             (\<lambda>j. divergence_cell N (1.0 / real_of_int N) U V i j)) D
           \<bind> (\<lambda>dv. setBoundary N dv ''continuous'') = Some dv \<and>
         well_sized N dv \<and>
         (\<forall>i j. interior N i j \<longrightarrow> cell N dv i j = divergence N U V i j)"
proof -
  let ?h = "1.0 / real_of_int N"
  let ?g = "\<lambda>i j. ((cell N U (i + 1) j - cell N U (i - 1) j) / (- 2)) * ?h +
            ((cell N V i (j + 1) - cell N V i (j - 1)) / (- 2)) * ?h"
  have "\<exists>y. for_loop [1..N] (\<lambda>i. for_loop [1..N] (\<lambda>j. divergence_cell N ?h U V i j)) D = Some y \<and>
      well_sized N y \<and>
      (\<forall>a b. in_grid N a b \<longrightarrow> cell N y a b = (if interior N a b then ?g a b else cell N D a b))"
    by (rule interior_pass_pointwise [OF assms(1,4)])
      (simp add: divergence_cell_eq assms(2,3))
  then obtain y where
    y: "for_loop [1..N] (\<lambda>i. for_loop [1..N] (\<lambda>j. divergence_cell N ?h U V i j)) D = Some y"
      "well_sized N y"
      "\<And>a b. in_grid N a b \<Longrightarrow> cell N y a b = (if interior N a b then ?g a b else cell N D a b)"
    by blast
  from setBoundary_cells [OF assms(1) y(2), of "''continuous''"] obtain dv where
    dv: "setBoundary N y ''continuous'' = Some dv" "well_sized N dv"
      "\<And>a b. in_grid N a b \<Longrightarrow> cell N dv a b = bnd N ''continuous'' y a b"
    by blast
  have "cell N dv i j = divergence N U V i j" if ij: "interior N i j" for i j
    using dv(3) [OF interior_in_grid(1) [OF ij]] y(3) [OF interior_in_grid(1) [OF ij]] ij
    by (simp add: bnd_interior [OF assms(1) ij] divergence_def Let_def)
  then show ?thesis using y(1) dv(1,2) by auto
qed

lemma pressure_sweep_bound:
  assumes N: "1 \<le> N" and p: "well_sized N p" and dv: "well_sized N dv"
    and Dm: "0 \<le> Dm"
    and pb: "\<And>a b. in_grid N a b \<Longrightarrow> \<bar>cell N p a b\<bar> \<le> B"
    and db: "\<And>a b. interior N a b \<Longrightarrow> \<bar>cell N dv a b\<bar> \<le> Dm"
  shows "\<exists>q. do { p \<leftarrow> for_loop [1..N] (\<lambda>i. for_loop [1..N] (\<lambda>j. pressure_cell N dv i j)) p;
                  setBoundary N p ''continuous'' } = Some q \<and>
           well_sized N q \<and> (\<forall>a b. in_grid N a b \<longrightarrow> \<bar>cell N q a b\<bar> \<le> B + Dm / 2)"
proof -
  let ?f = "\<lambda>y i j. (cell N y (i - 1) j + cell N y (i + 1) j + cell N y i (j - 1) +
            cell N y i (j + 1) + cell N dv i j) / 4"
  let ?Q = "\<lambda>(a::int) (b::int) val. \<bar>val :: real\<bar> \<le> B + Dm / 2"
  have "\<exists>y. for_loop [1..N] (\<lambda>i. for_loop [1..N] (\<lambda>j. pressure_cell N dv i j)) p = Some y \<and>
      well_sized N y \<and>
      (\<forall>a b. in_grid N a b \<longrightarrow>
         (if interior N a b then ?Q a b (cell N ((\<lambda>s. s) y) a b)
          else cell N ((\<lambda>s. s) y) a b = cell N ((\<lambda>s. s) p) a b))"
  proof (rule interior_pass_rule [where get = "\<lambda>s. s" and ok = "well_sized N" and f = ?f and Q = ?Q])
    show "1 \<le> N" by (rule N)
    show "well_sized N p" by (rule p)
  next
    fix i j y assume "interior N i j" "well_sized N y"
    then show "\<exists>s'. pressure_cell N dv i j y = Some s' \<and> well_sized N s' \<and>
        s' = upd N y i j (?f y i j)"
      by (simp add: pressure_cell_eq dv)
  next
    fix i j y
    assume ij: "interior N i j" and wy: "well_sized N y"
      and vis: "\<And>a b. in_grid N a b \<Longrightarrow> visited N i j a b \<Longrightarrow> ?Q a b (cell N y a b)"
      and unv: "\<And>a b. in_grid N a b \<Longrightarrow> \<not> visited N i j a b \<Longrightarrow> cell N y a b = cell N p a b"
    note g = interior_in_grid [OF ij]
    have any: "\<bar>cell N y a b\<bar> \<le> B + Dm / 2" if ab: "in_grid N a b" for a b
    proof (cases "visited N i j a b")
      case True
      from vis [OF ab True] show ?thesis .
    next
      case False
      from unv [OF ab False] pb [OF ab] Dm show ?thesis by simp
    qed
    have old: "\<bar>cell N y a b\<bar> \<le> B" if "in_grid N a b" "\<not> visited N i j a b" for a b
      using unv [OF that] pb [OF that(1)] by simp
    have w: "\<bar>cell N y (i - 1) j\<bar> \<le> B + Dm / 2" using g(2) by (rule any)
    have s: "\<bar>cell N y i (j - 1)\<bar> \<le> B + Dm / 2" using g(4) by (rule any)
    have e: "\<bar>cell N y (i + 1) j\<bar> \<le> B" using g(3) not_visited_east by (rule old)
    have n: "\<bar>cell N y i (j + 1)\<bar> \<le> B" using g(5) not_visited_north by (rule old)
    have c: "\<bar>cell N dv i j\<bar> \<le> Dm" using ij by (rule db)
    from w s e n c show "?Q i j (?f y i j)" by (auto simp: abs_le_iff)
  qed
  then obtain y where
    y: "for_loop [1..N] (\<lambda>i. for_loop [1..N] (\<lambda>j. pressure_cell N dv i j)) p = Some y"
      "well_sized N y"
      "\<And>a b. interior N a b \<Longrightarrow> \<bar>cell N y a b\<bar> \<le> B + Dm / 2"
    using interior_in_grid(1) by (metis (no_types, lifting))
  from setBoundary_cells [OF N y(2), of "''continuous''"] obtain q where
    q: "setBoundary N y ''continuous'' = Some q" "well_sized N q"
      "\<And>a b. in_grid N a b \<Longrightarrow> cell N q a b = bnd N ''continuous'' y a b"
    by blast
  have "\<bar>cell N q a b\<bar> \<le> B + Dm / 2" if ab: "in_grid N a b" for a b
    using q(3) [OF ab] bnd_continuous [OF N ab, of y] y(3) [OF cl_interior [OF N ab]] by simp
  then show ?thesis using y(1) q(1,2) by auto
qed

lemma pressure_solve_bound:
  assumes N: "1 \<le> N" and dv: "well_sized N dv" and Dm: "0 \<le> Dm"
    and db: "\<And>a b. interior N a b \<Longrightarrow> \<bar>cell N dv a b\<bar> \<le> Dm"
  shows "\<exists>q. for_loop [0..10 - 1] (\<lambda>k p. do {
            p \<leftarrow> for_loop [1..N] (\<lambda>i. for_loop [1..N] (\<lambda>j. pressure_cell N dv i j)) p;
            setBoundary N p ''continuous'' }) (zeros N) = Some q \<and>
          well_sized N q \<and> (\<forall>a b. in_grid N a b \<longrightarrow> \<bar>cell N q a b\<bar> \<le> 5 * Dm)"
proof -
  let ?I = "\<lambda>k p. well_sized N p \<and>
              (\<forall>a b. in_grid N a b \<longrightarrow> \<bar>cell N p a b\<bar> \<le> real_of_int k * (Dm / 2))"
  have "\<exists>q. for_loop [0..9] (\<lambda>k p. do {
            p \<leftarrow> for_loop [1..N] (\<lambda>i. for_loop [1..N] (\<lambda>j. pressure_cell N dv i j)) p;
            setBoundary N p ''continuous'' }) (zeros N) = Some q \<and> ?I (9 + 1) q"
  proof (rule for_loop_upto_rule [where I = ?I])
    show "(0::int) \<le> 9 + 1" by simp
    show "?I 0 (zeros N)" by (simp add: cell_zeros)
  next
    fix k and y :: field assume k: "0 \<le> k" "k \<le> 9" and y: "?I k y"
    from y have wy: "well_sized N y"
      and yb: "\<And>a b. in_grid N a b \<Longrightarrow> \<bar>cell N y a b\<bar> \<le> real_of_int k * (Dm / 2)"
      by simp_all
    from pressure_sweep_bound [OF N wy dv Dm yb db] obtain q where
      q: "do { p \<leftarrow> for_loop [1..N] (\<lambda>i. for_loop [1..N] (\<lambda>j. pressure_cell N dv i j)) y;
                  setBoundary N p ''continuous'' } = Some q"
        "well_sized N q"
        "\<And>a b. in_grid N a b \<Longrightarrow> \<bar>cell N q a b\<bar> \<le> real_of_int k * (Dm / 2) + Dm / 2"
      by blast
    have "\<bar>cell N q a b\<bar> \<le> real_of_int (k + 1) * (Dm / 2)" if "in_grid N a b" for a b
      using q(3) [OF that] by (simp add: algebra_simps)
    with q(1,2) show "\<exists>y'. do { p \<leftarrow> for_loop [1..N] (\<lambda>i. for_loop [1..N] (\<lambda>j. pressure_cell N dv i j)) y;
        setBoundary N p ''continuous'' } = Some y' \<and> ?I (k + 1) y'"
      by auto
  qed
  then show ?thesis by simp
qed

lemma wall_cells_moved:
  assumes N: "1 \<le> N" and w: "walls_within N U V W" and ij: "interior N i j"
    and G: "0 \<le> G"
    and ub: "\<And>a b. interior N a b \<Longrightarrow> \<bar>cell N U1 a b - cell N U a b\<bar> \<le> G"
    and vb: "\<And>a b. interior N a b \<Longrightarrow> \<bar>cell N V1 a b - cell N V a b\<bar> \<le> G"
  shows "\<bar>bnd N ''left_right_walls'' U1 (i + 1) j - cell N U (i + 1) j\<bar> \<le> G + W"
    and "\<bar>bnd N ''left_right_walls'' U1 (i - 1) j - cell N U (i - 1) j\<bar> \<le> G + W"
    and "\<bar>bnd N ''top_bottom_walls'' V1 i (j + 1) - cell N V i (j + 1)\<bar> \<le> G + W"
    and "\<bar>bnd N ''top_bottom_walls'' V1 i (j - 1) - cell N V i (j - 1)\<bar> \<le> G + W"
proof -
  from ij have b: "1 \<le> i" "i \<le> N" "1 \<le> j" "j \<le> N" by (simp_all add: interior_def)
  have wj: "\<bar>cell N U 0 j + cell N U 1 j\<bar> \<le> W" "\<bar>cell N U (N + 1) j + cell N U N j\<bar> \<le> W"
    using w b by (simp_all add: walls_within_def)
  have wi: "\<bar>cell N V i 0 + cell N V i 1\<bar> \<le> W" "\<bar>cell N V i (N + 1) + cell N V i N\<bar> \<le> W"
    using w b by (simp_all add: walls_within_def)
  have W: "0 \<le> W" using wj(1) by arith
  show "\<bar>bnd N ''left_right_walls'' U1 (i + 1) j - cell N U (i + 1) j\<bar> \<le> G + W"
  proof (cases "i = N")
    case True
    then have "on_edge N (i + 1) j" using b by (simp add: on_edge_def)
    then have "bnd N ''left_right_walls'' U1 (i + 1) j = - cell N U1 N j"
      using True b N by (simp add: bnd_edge edge_value_def col_sign_def)
    moreover have "\<bar>cell N U1 N j - cell N U N j\<bar> \<le> G" using ij True ub by blast
    ultimately show ?thesis using wj(2) True by (auto simp: abs_le_iff)
  next
    case False
    then have i: "interior N (i + 1) j" using b by (simp add: interior_def)
    from ub [OF i] W show ?thesis by (simp add: bnd_interior [OF N i])
  qed
  show "\<bar>bnd N ''left_right_walls'' U1 (i - 1) j - cell N U (i - 1) j\<bar> \<le> G + W"
  proof (cases "i = 1")
    case True
    then have "on_edge N (i - 1) j" using b by (simp add: on_edge_def)
    then have "bnd N ''left_right_walls'' U1 (i - 1) j = - cell N U1 1 j"
      using True b N by (simp add: bnd_edge edge_value_def col_sign_def)
    moreover have "\<bar>cell N U1 1 j - cell N U 1 j\<bar> \<le> G" using ij True ub by blast
    ultimately show ?thesis using wj(1) True by (auto simp: abs_le_iff)
  next
    case False
    then have i: "interior N (i - 1) j" using b by (simp add: interior_def)
    from ub [OF i] W show ?thesis by (simp add: bnd_interior [OF N i])
  qed
  show "\<bar>bnd N ''top_bottom_walls'' V1 i (j + 1) - cell N V i (j + 1)\<bar> \<le> G + W"
  proof (cases "j = N")
    case True
    then have "on_edge N i (j + 1)" using b by (simp add: on_edge_def)
    then have "bnd N ''top_bottom_walls'' V1 i (j + 1) = - cell N V1 i N"
      using True b N by (simp add: bnd_edge edge_value_def row_sign_def)
    moreover have "\<bar>cell N V1 i N - cell N V i N\<bar> \<le> G" using ij True vb by blast
    ultimately show ?thesis using wi(2) True by (auto simp: abs_le_iff)
  next
    case False
    then have i: "interior N i (j + 1)" using b by (simp add: interior_def)
    from vb [OF i] W show ?thesis by (simp add: bnd_interior [OF N i])
  qed
  show "\<bar>bnd N ''top_bottom_walls'' V1 i (j - 1) - cell N V i (j - 1)\<bar> \<le> G + W"
  proof (cases "j = 1")
    case True
    then have "on_edge N i (j - 1)" using b by (simp add: on_edge_def)
    then have "bnd N ''top_bottom_walls'' V1 i (j - 1) = - cell N V1 i 1"
      using True b N by (simp add: bnd_edge edge_value_def row_sign_def)
    moreover have "\<bar>cell N V1 i 1 - cell N V i 1\<bar> \<le> G" using ij True vb by blast
    ultimately show ?thesis using wi(1) True by (auto simp: abs_le_iff)
  next
    case False
    then have i: "interior N i (j - 1)" using b by (simp add: interior_def)
    from vb [OF i] W show ?thesis by (simp add: bnd_interior [OF N i])
  qed
qed

lemma gradient_size:
  fixes n :: real
  assumes "0 < n" "\<bar>a\<bar> \<le> 5 * Dm" "\<bar>b\<bar> \<le> 5 * Dm"
  shows "\<bar>(a - b) / (2 * (1 / n))\<bar> \<le> 5 * Dm * n"
proof -
  have "(a - b) / (2 * (1 / n)) = ((a - b) / 2) * n" using assms(1) by (simp add: field_simps)
  moreover have "\<bar>((a - b) / 2) * n\<bar> = \<bar>(a - b) / 2\<bar> * n" using assms(1) by (simp add: abs_mult)
  moreover have "\<bar>(a - b) / 2\<bar> \<le> 5 * Dm" using assms(2,3) by (auto simp: abs_le_iff)
  ultimately show ?thesis using assms(1) by (simp add: mult_right_mono)
qed

lemma divergence_shift:
  fixes n :: real
  assumes n: "0 < n"
    and "\<bar>ue' - ue\<bar> \<le> G" "\<bar>uw' - uw\<bar> \<le> G" "\<bar>vn' - vn\<bar> \<le> G" "\<bar>vs' - vs\<bar> \<le> G"
  shows "\<bar>(((ue' - uw') / (- 2)) * (1 / n) + ((vn' - vs') / (- 2)) * (1 / n)) -
          (((ue - uw) / (- 2)) * (1 / n) + ((vn - vs) / (- 2)) * (1 / n))\<bar> \<le> 2 * G / n"
proof -
  define s where "s = (ue' - ue) - (uw' - uw) + (vn' - vn) - (vs' - vs)"
  have e: "(((ue' - uw') / (- 2)) * (1 / n) + ((vn' - vs') / (- 2)) * (1 / n)) -
          (((ue - uw) / (- 2)) * (1 / n) + ((vn - vs) / (- 2)) * (1 / n)) = - s / (2 * n)"
    using n unfolding s_def by (simp add: field_simps)
  have "\<bar>s\<bar> \<le> 4 * G" using assms(2-5) unfolding s_def by (auto simp: abs_le_iff)
  then have "\<bar>s\<bar> / (2 * n) \<le> (4 * G) / (2 * n)" using n by (intro divide_right_mono) simp_all
  moreover have "\<bar>- s / (2 * n)\<bar> = \<bar>s\<bar> / (2 * n)" using n by (simp add: abs_mult)
  moreover have "(4 * G) / (2 * n) = 2 * G / n" by simp
  ultimately show ?thesis unfolding e by (simp only:)
qed

text \<open>
  Claim C2, as amended (divergence bound). Let \<open>Dm\<close> bound the absolute value of the
  discrete divergence of the input velocity at every interior cell, and let \<open>W\<close> bound its
  wall mismatches \<open>\<bar>u[0, k] + u[1, k]\<bar>\<close>, \<open>\<bar>u[N + 1, k] + u[N, k]\<bar>\<close>, \<open>\<bar>v[k, 0] + v[k, 1]\<bar>\<close> and
  \<open>\<bar>v[k, N + 1] + v[k, N]\<bar>\<close> for \<open>1 \<le> k \<le> N\<close>. Then \<open>project\<close> returns, and the divergence
  recomputed from its result at every interior cell \<open>(i, j)\<close> is within \<open>11 * Dm + 2 * W / N\<close>
  of zero.
\<close>

theorem project_divergence_bound:
  assumes "1 \<le> N" and "well_sized N U" and "well_sized N V"
    and "well_sized N P" and "well_sized N D"
    and "divergence_within N U V Dm"
    and "walls_within N U V W"
    and "interior N i j"
  shows "\<exists>r. divergence_after_project N U V P D i j = Some r \<and>
           \<bar>r\<bar> \<le> 11 * Dm + 2 * W / real_of_int N"
proof -
  let ?h = "1.0 / real_of_int N"
  let ?n = "real_of_int N"
  have n: "0 < ?n" using assms(1) by simp
  have db: "\<bar>divergence N U V a b\<bar> \<le> Dm" if "interior N a b" for a b
    using assms(6) that by (simp add: divergence_within_def interior_def)
  have Dm: "0 \<le> Dm" using db [OF assms(8)] by arith
  from divergence_stage_cells [OF assms(1,2,3,5)] obtain dv where
    dv: "for_loop [1..N] (\<lambda>i. for_loop [1..N] (\<lambda>j. divergence_cell N ?h U V i j)) D
           \<bind> (\<lambda>dv. setBoundary N dv ''continuous'') = Some dv"
      "well_sized N dv"
      "\<And>i j. interior N i j \<Longrightarrow> cell N dv i j = divergence N U V i j"
    by blast
  have dvb: "\<bar>cell N dv a b\<bar> \<le> Dm" if "interior N a b" for a b
    using dv(3) [OF that] db [OF that] by simp
  from pressure_solve_bound [OF assms(1) dv(2) Dm dvb] obtain q where
    q: "for_loop [0..10 - 1] (\<lambda>k p. do {
            p \<leftarrow> for_loop [1..N] (\<lambda>i. for_loop [1..N] (\<lambda>j. pressure_cell N dv i j)) p;
            setBoundary N p ''continuous'' }) (zeros N) = Some q"
      "well_sized N q"
      "\<And>a b. in_grid N a b \<Longrightarrow> \<bar>cell N q a b\<bar> \<le> 5 * Dm"
    by blast
  from gradient_pass_cells [OF assms(1,2,3) q(2), where h = ?h] obtain U1 V1 where
    g: "for_loop [1..N] (\<lambda>i. for_loop [1..N] (\<lambda>j. gradient_cell N ?h q i j)) (U, V)
          = Some (U1, V1)"
      "well_sized N U1" "well_sized N V1"
      "\<And>a b. interior N a b \<Longrightarrow>
         cell N U1 a b = cell N U a b - (cell N q (a + 1) b - cell N q (a - 1) b) / (2 * ?h)"
      "\<And>a b. interior N a b \<Longrightarrow>
         cell N V1 a b = cell N V a b - (cell N q a (b + 1) - cell N q a (b - 1)) / (2 * ?h)"
    by blast
  from setBoundary_cells [OF assms(1) g(2), of "''left_right_walls''"] obtain U2 where
    U2: "setBoundary N U1 ''left_right_walls'' = Some U2"
      "\<And>a b. in_grid N a b \<Longrightarrow> cell N U2 a b = bnd N ''left_right_walls'' U1 a b"
    by blast
  from setBoundary_cells [OF assms(1) g(3), of "''top_bottom_walls''"] obtain V2 where
    V2: "setBoundary N V1 ''top_bottom_walls'' = Some V2"
      "\<And>a b. in_grid N a b \<Longrightarrow> cell N V2 a b = bnd N ''top_bottom_walls'' V1 a b"
    by blast
  have pr: "project N U V P D = Some (U2, V2, q, dv)"
    unfolding project_zero_filled [OF assms(4)] dv(1) using q(1) g(1) U2(1) V2(1) by simp
  let ?G = "5 * Dm * ?n"
  have G: "0 \<le> ?G" using Dm n by simp
  have ub: "\<bar>cell N U1 a b - cell N U a b\<bar> \<le> ?G" if ab: "interior N a b" for a b
  proof -
    have "\<bar>(cell N q (a + 1) b - cell N q (a - 1) b) / (2 * (1 / ?n))\<bar> \<le> ?G"
      using n q(3) [OF interior_in_grid(3) [OF ab]] q(3) [OF interior_in_grid(2) [OF ab]]
      by (rule gradient_size)
    then show ?thesis using g(4) [OF ab] by simp
  qed
  have vb: "\<bar>cell N V1 a b - cell N V a b\<bar> \<le> ?G" if ab: "interior N a b" for a b
  proof -
    have "\<bar>(cell N q a (b + 1) - cell N q a (b - 1)) / (2 * (1 / ?n))\<bar> \<le> ?G"
      using n q(3) [OF interior_in_grid(5) [OF ab]] q(3) [OF interior_in_grid(4) [OF ab]]
      by (rule gradient_size)
    then show ?thesis using g(5) [OF ab] by simp
  qed
  note ig = interior_in_grid [OF assms(8)]
  note m = wall_cells_moved [OF assms(1,7,8) G ub vb]
  have c: "\<bar>cell N U2 (i + 1) j - cell N U (i + 1) j\<bar> \<le> ?G + W"
    "\<bar>cell N U2 (i - 1) j - cell N U (i - 1) j\<bar> \<le> ?G + W"
    "\<bar>cell N V2 i (j + 1) - cell N V i (j + 1)\<bar> \<le> ?G + W"
    "\<bar>cell N V2 i (j - 1) - cell N V i (j - 1)\<bar> \<le> ?G + W"
    using m by (simp_all add: U2(2) V2(2) ig)
  have "\<bar>divergence N U2 V2 i j - divergence N U V i j\<bar> \<le> 2 * (?G + W) / ?n"
    using divergence_shift [OF n c] by (simp add: divergence_def)
  moreover have "2 * (?G + W) / ?n = 10 * Dm + 2 * W / ?n"
    using n by (simp add: field_simps)
  ultimately have "\<bar>divergence N U2 V2 i j\<bar> \<le> 11 * Dm + 2 * W / ?n"
    using db [OF assms(8)] by arith
  then show ?thesis by (simp add: divergence_after_project_def pr)
qed


theorem project_divergence_bound_witness:
  "\<exists>r. divergence_after_project 2
         [0, 1, 0, 0, 3, 1, 0, 0, 0, 0, 0, 0, 0, 0, 0, 0]
         [0, 0, 0, 0, 0, 0, 0, 0, 0, 0, 0, 0, 0, 0, 0, 0]
         [1, 2, 3, 4, 5, 6, 7, 8, 9, 10, 11, 12, 13, 14, 15, 16]
         [0, 0, 0, 0, 0, 0, 0, 0, 0, 0, 0, 0, 0, 0, 0, 0] 1 1 = Some r \<and>
       \<bar>r\<bar> \<le> 11 * (3 / 4) + 2 * 4 / real_of_int 2"
  by (rule project_divergence_bound)
    (simp_all add: well_sized_def size_grid_def interior_def divergence_within_def
      walls_within_def divergence_def cell_def index_def upto.simps)

section \<open>advect over JavaScript numbers: which velocities keep its reads in range\<close>

lemma dt_pos: "0 < dt"
  by (simp add: dt_def numSubSteps_def)

lemma rd_js_cell:
  "well_sized_js N x \<Longrightarrow> in_grid N i j \<Longrightarrow> rd_js x (index N i j) = Some (cell_js N x i j)"
  using index_bounds [of N i j] by (simp add: rd_js_def well_sized_js_def cell_js_def)

lemma wr_js_cell:
  "well_sized_js N x \<Longrightarrow> in_grid N i j \<Longrightarrow> wr_js x (index N i j) val = Some (upd_js N x i j val)"
  using index_bounds [of N i j] by (simp add: wr_js_def well_sized_js_def upd_js_def)

lemma well_sized_upd_js [simp]: "well_sized_js N (upd_js N x i j val) = well_sized_js N x"
  by (simp add: well_sized_js_def upd_js_def)

lemma well_sized_zeros_js [simp]: "well_sized_js N (zeros_js N)"
  by (simp add: well_sized_js_def zeros_js_def)

lemma setBoundary_js_ok:
  assumes "1 \<le> N" "well_sized_js N x"
  shows "\<exists>y. setBoundary_js N x bt = Some y \<and> well_sized_js N y"
proof -
  have g: "in_grid N 0 0" "in_grid N 0 1" "in_grid N 1 0" "in_grid N (N + 1) 0"
    "in_grid N (N + 1) 1" "in_grid N N 0" "in_grid N 0 (N + 1)" "in_grid N 0 N"
    "in_grid N 1 (N + 1)" "in_grid N (N + 1) (N + 1)" "in_grid N (N + 1) N"
    "in_grid N N (N + 1)"
    using assms(1) by (simp_all add: in_grid_def)
  have row: "\<exists>y'. setBoundary_row_js N bt i y = Some y' \<and> well_sized_js N y'"
    if "i \<in> set [1..N]" "well_sized_js N y" for i y
  proof -
    have "in_grid N i 0" "in_grid N i 1" "in_grid N i N" "in_grid N i (N + 1)"
      using that(1) assms(1) by (simp_all add: in_grid_def)
    then show ?thesis using that(2)
      by (simp add: setBoundary_row_js_def rd_js_cell wr_js_cell)
  qed
  have col: "\<exists>y'. setBoundary_col_js N bt j y = Some y' \<and> well_sized_js N y'"
    if "j \<in> set [1..N]" "well_sized_js N y" for j y
  proof -
    have "in_grid N 0 j" "in_grid N 1 j" "in_grid N N j" "in_grid N (N + 1) j"
      using that(1) assms(1) by (simp_all add: in_grid_def)
    then show ?thesis using that(2)
      by (simp add: setBoundary_col_js_def rd_js_cell wr_js_cell)
  qed
  have "\<exists>y1. for_loop [1..N] (setBoundary_row_js N bt) x = Some y1 \<and> well_sized_js N y1"
    by (rule for_loop_inv [where I = "well_sized_js N", OF assms(2)]) (rule row)
  then obtain y1 where
    y1: "for_loop [1..N] (setBoundary_row_js N bt) x = Some y1" "well_sized_js N y1" by blast
  have "\<exists>y2. for_loop [1..N] (setBoundary_col_js N bt) y1 = Some y2 \<and> well_sized_js N y2"
    by (rule for_loop_inv [where I = "well_sized_js N", OF y1(2)]) (rule col)
  then obtain y2 where
    y2: "for_loop [1..N] (setBoundary_col_js N bt) y1 = Some y2" "well_sized_js N y2" by blast
  have "\<exists>y. setBoundary_corners_js N y2 = Some y \<and> well_sized_js N y"
    using y2(2) g by (simp add: setBoundary_corners_js_def rd_js_cell wr_js_cell)
  then show ?thesis using y1(1) y2(1) by (simp add: setBoundary_js_def)
qed

text \<open>The traced coordinate of a velocity that is a number.\<close>

lemma js_sub_Fin: "js_sub (Fin a) (Fin b) = Fin (a - b)"
  by (simp add: js_sub_def)

lemma backtrace_js_Fin: "backtrace_js N i (Fin a) = Fin (backtrace N i a)"
  by (simp add: backtrace_js_def backtrace_def js_sub_Fin Let_def)

lemma backtrace_js_PosInf: "1 \<le> N \<Longrightarrow> backtrace_js N i PosInf = Fin 0.5"
  using dt_pos by (simp add: backtrace_js_def js_sub_def Let_def)

lemma backtrace_js_NegInf: "1 \<le> N \<Longrightarrow> backtrace_js N i NegInf = Fin (real_of_int N + 0.5)"
  using dt_pos by (simp add: backtrace_js_def js_sub_def Let_def)

lemma backtrace_js_NaN: "backtrace_js N i NaN = NaN"
  by (simp add: backtrace_js_def js_sub_def Let_def)

lemma backtrace_js_range:
  assumes "1 \<le> N" "w \<noteq> NaN"
  shows "\<exists>p. backtrace_js N i w = Fin p \<and> 0.5 \<le> p \<and> p \<le> real_of_int N + 0.5"
proof (cases w)
  case (Fin a)
  then show ?thesis
    using backtrace_range [OF assms(1), of i a] by (simp add: backtrace_js_Fin)
next
  case PosInf
  have "backtrace_js N i PosInf = Fin 0.5 \<and> (0.5 :: real) \<le> 0.5 \<and> 0.5 \<le> real_of_int N + 0.5"
    using assms(1) by (simp add: backtrace_js_PosInf)
  then show ?thesis unfolding PosInf by (rule exI)
next
  case NegInf
  have "backtrace_js N i NegInf = Fin (real_of_int N + 0.5) \<and>
      0.5 \<le> real_of_int N + 0.5 \<and> real_of_int N + 0.5 \<le> real_of_int N + 0.5"
    using assms(1) by (simp add: backtrace_js_NegInf)
  then show ?thesis unfolding NegInf by (rule exI)
next
  case NaN
  with assms(2) show ?thesis by simp
qed

lemma floor_stencil:
  assumes "1 \<le> N" "0.5 \<le> p" "p \<le> real_of_int N + 0.5"
  shows "0 \<le> \<lfloor>p\<rfloor>" and "\<lfloor>p\<rfloor> + 1 \<le> N + 1"
proof -
  from assms(2) show "0 \<le> \<lfloor>p\<rfloor>" by (simp add: zero_le_floor)
  have "p < real_of_int (N + 1)" using assms(3) by simp
  then have "\<lfloor>p\<rfloor> < N + 1" by (simp only: floor_less_iff)
  then show "\<lfloor>p\<rfloor> + 1 \<le> N + 1" by simp
qed

lemma backtrace_js_stencil:
  assumes "1 \<le> N" "w \<noteq> NaN"
  shows "\<exists>k. js_floor (backtrace_js N i w) = Fin (real_of_int k) \<and>
           js_int (js_floor (backtrace_js N i w)) = Some k \<and> 0 \<le> k \<and> k + 1 \<le> N + 1"
proof -
  from backtrace_js_range [OF assms] obtain p where
    p: "backtrace_js N i w = Fin p" "0.5 \<le> p" "p \<le> real_of_int N + 0.5" by blast
  from floor_stencil [OF assms(1) p(2,3)] show ?thesis by (simp add: p(1))
qed

lemma index_js_int:
  "index_js N (Fin (real_of_int a)) (Fin (real_of_int b)) = Fin (real_of_int (index N a b))"
  by (simp add: index_js_def index_def)

lemma rd_num_int: "rd_num x (Fin (real_of_int k)) = rd_js x k"
  by (simp add: rd_num_def)

lemma js_succ_int: "js_add (Fin (real_of_int a)) (Fin 1) = Fin (real_of_int (a + 1))"
  by simp

lemma advect_cell_js_backtrace:
  "advect_cell_js N x_0 u_0 v_0 i j x = do {
     uc \<leftarrow> rd_js u_0 (index N i j);
     vc \<leftarrow> rd_js v_0 (index N i j);
     let p_x = backtrace_js N i uc;
     let p_y = backtrace_js N j vc;
     let i0 = js_floor p_x;
     let i1 = js_add i0 (Fin 1);
     let j0 = js_floor p_y;
     let j1 = js_add j0 (Fin 1);
     let s1 = js_sub p_x i0;
     let s0 = js_sub (Fin 1) s1;
     let t1 = js_sub p_y j0;
     let t0 = js_sub (Fin 1) t1;
     x00 \<leftarrow> rd_num x_0 (index_js N i0 j0);
     x01 \<leftarrow> rd_num x_0 (index_js N i0 j1);
     x10 \<leftarrow> rd_num x_0 (index_js N i1 j0);
     x11 \<leftarrow> rd_num x_0 (index_js N i1 j1);
     wr_js x (index N i j)
       (js_add (js_mul s0 (js_add (js_mul t0 x00) (js_mul t1 x01)))
               (js_mul s1 (js_add (js_mul t0 x10) (js_mul t1 x11))))
   }"
  by (simp add: advect_cell_js_def backtrace_js_def Let_def)

lemma advect_cell_js_ok:
  assumes N: "1 \<le> N" and ij: "interior N i j"
    and w: "well_sized_js N x" "well_sized_js N x_0" "well_sized_js N u_0" "well_sized_js N v_0"
    and d: "cell_js N u_0 i j \<noteq> NaN" "cell_js N v_0 i j \<noteq> NaN"
  shows "\<exists>y. advect_cell_js N x_0 u_0 v_0 i j x = Some y \<and> well_sized_js N y"
proof -
  note g = interior_in_grid(1) [OF ij]
  from backtrace_js_stencil [OF N d(1), of i] obtain a where
    a: "js_floor (backtrace_js N i (cell_js N u_0 i j)) = Fin (real_of_int a)"
      "0 \<le> a" "a + 1 \<le> N + 1" by blast
  from backtrace_js_stencil [OF N d(2), of j] obtain b where
    b: "js_floor (backtrace_js N j (cell_js N v_0 i j)) = Fin (real_of_int b)"
      "0 \<le> b" "b + 1 \<le> N + 1" by blast
  have s: "in_grid N a b" "in_grid N a (b + 1)" "in_grid N (a + 1) b" "in_grid N (a + 1) (b + 1)"
    using a(2,3) b(2,3) by (simp_all add: in_grid_def)
  have r: "rd_num x_0 (index_js N (Fin (real_of_int a')) (Fin (real_of_int b'))) =
      Some (cell_js N x_0 a' b')" if "in_grid N a' b'" for a' b'
    using that w(2) by (simp only: index_js_int rd_num_int rd_js_cell)
  show ?thesis
    unfolding advect_cell_js_backtrace
    using w g s
    by (simp add: rd_js_cell wr_js_cell Let_def a(1) b(1) js_succ_int r del: js_add.simps of_int_add)
qed

lemma advect_js_ok:
  assumes "1 \<le> N" "well_sized_js N x" "well_sized_js N x_0"
    "well_sized_js N u_0" "well_sized_js N v_0" "velocity_defined N u_0 v_0"
  shows "\<exists>y. advect_js N x x_0 u_0 v_0 bt = Some y \<and> well_sized_js N y"
proof -
  have "\<exists>z. for_loop [1..N] (\<lambda>i. for_loop [1..N] (\<lambda>j. advect_cell_js N x_0 u_0 v_0 i j)) x = Some z
      \<and> well_sized_js N z"
  proof (rule interior_loop_inv [where I = "well_sized_js N", OF assms(2)])
    fix i j y assume ij: "interior N i j" and y: "well_sized_js N y"
    from ij assms(6) have "cell_js N u_0 i j \<noteq> NaN" "cell_js N v_0 i j \<noteq> NaN"
      by (simp_all add: velocity_defined_def interior_def)
    with assms(1) ij y assms(3,4,5)
    show "\<exists>y'. advect_cell_js N x_0 u_0 v_0 i j y = Some y' \<and> well_sized_js N y'"
      by (rule advect_cell_js_ok)
  qed
  then obtain z where
    z: "for_loop [1..N] (\<lambda>i. for_loop [1..N] (\<lambda>j. advect_cell_js N x_0 u_0 v_0 i j)) x = Some z"
    "well_sized_js N z" by blast
  from setBoundary_js_ok [OF assms(1) z(2), of bt] z(1)
  show ?thesis by (simp add: advect_js_def)
qed

text \<open>A velocity that is not a number.\<close>

lemma index_js_NaN [simp]: "index_js N NaN b = NaN" "index_js N a NaN = NaN"
  by (cases a; simp add: index_js_def)+

lemma rd_num_NaN [simp]: "rd_num x NaN = None"
  by (simp add: rd_num_def)

lemma advect_cell_js_NaN:
  assumes "interior N i j" "well_sized_js N u_0"
    and "cell_js N u_0 i j = NaN \<or> cell_js N v_0 i j = NaN"
  shows "advect_cell_js N x_0 u_0 v_0 i j x = None"
proof (cases "rd_js v_0 (index N i j)")
  case None
  then show ?thesis by (simp add: advect_cell_js_def)
next
  case (Some vc)
  then have vc: "vc = cell_js N v_0 i j"
    by (simp add: rd_js_def cell_js_def split: if_splits)
  have uc: "rd_js u_0 (index N i j) = Some (cell_js N u_0 i j)"
    using assms(1,2) by (simp add: rd_js_cell interior_in_grid(1))
  from assms(3) show ?thesis
  proof
    assume "cell_js N u_0 i j = NaN"
    then show ?thesis
      unfolding advect_cell_js_backtrace by (simp add: uc Some backtrace_js_NaN Let_def)
  next
    assume "cell_js N v_0 i j = NaN"
    then show ?thesis
      unfolding advect_cell_js_backtrace by (simp add: uc Some vc backtrace_js_NaN Let_def)
  qed
qed

lemma for_loop_fails:
  "k \<in> set ks \<Longrightarrow> (\<And>x. body k x = None) \<Longrightarrow> for_loop ks body x = None"
  by (induction ks arbitrary: x) (auto split: option.splits)

lemma advect_js_NaN:
  assumes "interior N i j" "well_sized_js N u_0"
    and "cell_js N u_0 i j = NaN \<or> cell_js N v_0 i j = NaN"
  shows "advect_js N x x_0 u_0 v_0 bt = None"
proof -
  from assms(1) have i: "i \<in> set [1..N]" and j: "j \<in> set [1..N]"
    by (simp_all add: interior_def)
  have "for_loop [1..N] (advect_cell_js N x_0 u_0 v_0 i) y = None" for y
    using j by (rule for_loop_fails [where body = "advect_cell_js N x_0 u_0 v_0 i"])
      (rule advect_cell_js_NaN [OF assms])
  then have "for_loop [1..N] (\<lambda>i. for_loop [1..N] (\<lambda>j. advect_cell_js N x_0 u_0 v_0 i j)) x = None"
    using i
    by (intro for_loop_fails [where k = i and
          body = "\<lambda>i. for_loop [1..N] (advect_cell_js N x_0 u_0 v_0 i)"])
  then show ?thesis by (simp add: advect_js_def)
qed


lemma cell_upd_js_same:
  "well_sized_js N x \<Longrightarrow> in_grid N i j \<Longrightarrow> cell_js N (upd_js N x i j val) i j = val"
  using index_bounds [of N i j] by (simp add: cell_js_def upd_js_def well_sized_js_def)

text \<open>
  Claim C8, as amended (in-bounds access). On buffers of \<open>(N + 2)\<^sup>2\<close> cells, \<open>diffuse\<close> and
  \<open>project\<close> return a result, and so does \<open>advect\<close> over JavaScript numbers provided no
  interior cell of the two velocity buffers is \<^verbatim>\<open>NaN\<close>: no read or write leaves
  \<open>[0, (N + 2)\<^sup>2)\<close>. Grid coordinates map into that range; and for every velocity value
  other than \<^verbatim>\<open>NaN\<close>, the infinities included, the clamped traced coordinate has its stencil
  indices \<open>i0 = \<lfloor>p\<rfloor>\<close> and \<open>i1 = i0 + 1\<close> integers in \<open>[0, N + 1]\<close>. The indices of \<open>diffuse\<close> and
  \<open>project\<close> are loop counters, whatever the cells hold.
\<close>

theorem in_bounds_access:
  assumes "1 \<le> N" and "well_sized N x" and "well_sized N x_0"
    and "well_sized N U" and "well_sized N V" and "well_sized N P" and "well_sized N D"
    and "well_sized_js N y" and "well_sized_js N y_0"
    and "well_sized_js N u_0" and "well_sized_js N v_0"
    and "velocity_defined N u_0 v_0"
  shows "(\<exists>z. diffuse N x x_0 boundaryType = Some z) \<and>
         (\<exists>z. advect_js N y y_0 u_0 v_0 boundaryType = Some z) \<and>
         (\<exists>r. project N U V P D = Some r) \<and>
         (\<forall>i j. 0 \<le> i \<and> i \<le> N + 1 \<and> 0 \<le> j \<and> j \<le> N + 1 \<longrightarrow>
            0 \<le> index N i j \<and> index N i j < size_grid N) \<and>
         (\<forall>i w. w \<noteq> NaN \<longrightarrow>
            (\<exists>k. js_int (js_floor (backtrace_js N i w)) = Some k \<and>
                 js_int (js_add (js_floor (backtrace_js N i w)) (Fin 1)) = Some (k + 1) \<and>
                 0 \<le> k \<and> k + 1 \<le> N + 1))"
proof (intro conjI)
  show "\<exists>z. diffuse N x x_0 boundaryType = Some z"
    using diffuse_ok [OF assms(1,2,3)] by blast
  show "\<exists>z. advect_js N y y_0 u_0 v_0 boundaryType = Some z"
    using advect_js_ok [OF assms(1,8,9,10,11,12)] by blast
  show "\<exists>r. project N U V P D = Some r"
    using project_ok [OF assms(1,4,5,6,7)] by blast
  show "\<forall>i j. 0 \<le> i \<and> i \<le> N + 1 \<and> 0 \<le> j \<and> j \<le> N + 1 \<longrightarrow>
      0 \<le> index N i j \<and> index N i j < size_grid N"
    using index_bounds by (simp add: in_grid_def)
  show "\<forall>i w. w \<noteq> NaN \<longrightarrow>
      (\<exists>k. js_int (js_floor (backtrace_js N i w)) = Some k \<and>
           js_int (js_add (js_floor (backtrace_js N i w)) (Fin 1)) = Some (k + 1) \<and>
           0 \<le> k \<and> k + 1 \<le> N + 1)"
  proof (intro allI impI)
    fix i w assume "w \<noteq> NaN"
    from backtrace_js_stencil [OF assms(1) this, of i] obtain k where
      k: "js_floor (backtrace_js N i w) = Fin (real_of_int k)" "0 \<le> k" "k + 1 \<le> N + 1"
      by blast
    have "js_int (Fin (real_of_int k)) = Some k"
      "js_int (js_add (Fin (real_of_int k)) (Fin 1)) = Some (k + 1)"
      by simp_all
    with k show "\<exists>k. js_int (js_floor (backtrace_js N i w)) = Some k \<and>
           js_int (js_add (js_floor (backtrace_js N i w)) (Fin 1)) = Some (k + 1) \<and>
           0 \<le> k \<and> k + 1 \<le> N + 1"
      by auto
  qed
qed

theorem in_bounds_access_witness:
  "(\<exists>z. diffuse 1 [1, 2, 3, 4, 5, 6, 7, 8, 9] [9, 8, 7, 6, 5, 4, 3, 2, 1] ''continuous'' = Some z) \<and>
   (\<exists>z. advect_js 1 [Fin 1, Fin 2, Fin 3, Fin 4, Fin 5, Fin 6, Fin 7, Fin 8, Fin 9]
           [Fin 9, NaN, Fin 7, Fin 6, PosInf, Fin 4, Fin 3, Fin 2, Fin 1]
           [NaN, Fin 0, Fin 0, Fin 0, PosInf, Fin 0, Fin 0, Fin 0, Fin 0]
           [Fin 0, Fin 0, Fin 0, Fin 0, Fin (- 1000), Fin 0, Fin 0, Fin 0, NaN]
           ''continuous'' = Some z) \<and>
   (\<exists>r. project 1 [1, 2, 3, 4, 5, 6, 7, 8, 9] [9, 8, 7, 6, 5, 4, 3, 2, 1]
           [1, 1, 1, 1, 1, 1, 1, 1, 1] [2, 2, 2, 2, 2, 2, 2, 2, 2] = Some r) \<and>
   0 \<le> index 1 2 2 \<and> index 1 2 2 < size_grid 1 \<and>
   (\<exists>k. js_int (js_floor (backtrace_js 1 1 NegInf)) = Some k \<and>
        js_int (js_add (js_floor (backtrace_js 1 1 NegInf)) (Fin 1)) = Some (k + 1) \<and>
        0 \<le> k \<and> k + 1 \<le> 1 + 1)"
proof -
  have h: "well_sized 1 [1, 2, 3, 4, 5, 6, 7, 8, 9]" "well_sized 1 [9, 8, 7, 6, 5, 4, 3, 2, 1]"
    "well_sized 1 [1, 1, 1, 1, 1, 1, 1, 1, 1]" "well_sized 1 [2, 2, 2, 2, 2, 2, 2, 2, 2]"
    "well_sized_js 1 [Fin 1, Fin 2, Fin 3, Fin 4, Fin 5, Fin 6, Fin 7, Fin 8, Fin 9]"
    "well_sized_js 1 [Fin 9, NaN, Fin 7, Fin 6, PosInf, Fin 4, Fin 3, Fin 2, Fin 1]"
    "well_sized_js 1 [NaN, Fin 0, Fin 0, Fin 0, PosInf, Fin 0, Fin 0, Fin 0, Fin 0]"
    "well_sized_js 1 [Fin 0, Fin 0, Fin 0, Fin 0, Fin (- 1000), Fin 0, Fin 0, Fin 0, NaN]"
    "velocity_defined 1 [NaN, Fin 0, Fin 0, Fin 0, PosInf, Fin 0, Fin 0, Fin 0, Fin 0]
       [Fin 0, Fin 0, Fin 0, Fin 0, Fin (- 1000), Fin 0, Fin 0, Fin 0, NaN]"
    by (simp_all add: well_sized_def well_sized_js_def size_grid_def velocity_defined_def
        cell_js_def index_def upto.simps)
  have n: "NegInf \<noteq> NaN" by simp
  from in_bounds_access [of 1, OF _ h(1,2,1,2,3,4,5,6,7,8,9), of "''continuous''"]
  show ?thesis using n by (simp add: size_grid_def index_def)
qed

text \<open>
  Claim C8 as stated fails for a velocity that is \<^verbatim>\<open>NaN\<close>. At the source's resolution
  \<open>numCells = 50\<close>, let \<open>u_0\<close> be \<^verbatim>\<open>NaN\<close> in the interior cell \<open>(1, 1)\<close> and let every other cell of
  every buffer be zero. At cell \<open>(1, 1)\<close> the traced coordinate \<open>p_x\<close> is \<^verbatim>\<open>NaN\<close>, both clamping
  tests are false, \<open>i0 = Math.floor(p_x)\<close> is \<^verbatim>\<open>NaN\<close> and not an index in \<open>[0, N + 1]\<close>, and
  \<^verbatim>\<open>index(i0, j0)\<close> is \<^verbatim>\<open>NaN\<close>, no integer: the read of \<^verbatim>\<open>x_0\<close> there is outside
  \<open>[0, (N + 2)\<^sup>2)\<close>, and \<open>advect_js\<close> returns \<open>None\<close>.
\<close>

theorem advect_NaN_counterexample:
  "advect_js numCells (zeros_js numCells) (zeros_js numCells)
     (upd_js numCells (zeros_js numCells) 1 1 NaN) (zeros_js numCells) ''continuous'' = None \<and>
   js_floor (backtrace_js numCells 1 NaN) = NaN \<and>
   js_int (index_js numCells (js_floor (backtrace_js numCells 1 NaN))
             (js_floor (backtrace_js numCells 1 (Fin 0)))) = None"
proof (intro conjI)
  have i: "interior numCells 1 1" by (simp add: interior_def numCells_def)
  have "cell_js numCells (upd_js numCells (zeros_js numCells) 1 1 NaN) 1 1 = NaN"
    using interior_in_grid(1) [OF i] by (simp add: cell_upd_js_same)
  then show "advect_js numCells (zeros_js numCells) (zeros_js numCells)
     (upd_js numCells (zeros_js numCells) 1 1 NaN) (zeros_js numCells) ''continuous'' = None"
    using i by (intro advect_js_NaN [where i = 1 and j = 1]) simp_all
  show "js_floor (backtrace_js numCells 1 NaN) = NaN"
    by (simp add: backtrace_js_NaN)
  show "js_int (index_js numCells (js_floor (backtrace_js numCells 1 NaN))
             (js_floor (backtrace_js numCells 1 (Fin 0)))) = None"
    by (simp add: backtrace_js_NaN)
qed

section \<open>On real cells, advect over JavaScript numbers is advect\<close>

text \<open>
  On buffers whose cells are all reals, \<open>advect_js\<close> and \<open>advect\<close> fail together and return
  the same cells.
\<close>

lemma for_loop_lift:
  assumes "\<And>k x. body' k (f x) = map_option f (body k x)"
  shows "for_loop ks body' (f x) = map_option f (for_loop ks body x)"
  by (induction ks arbitrary: x) (auto simp: assms split: option.splits)

lemma rd_js_lift: "rd_js (map Fin x) k = map_option Fin (rd x k)"
proof (cases "0 \<le> k \<and> k < int (length x)")
  case True
  then have "nat k < length x" by linarith
  then show ?thesis using True by (simp add: rd_js_def rd_def)
next
  case False
  then show ?thesis by (auto simp: rd_js_def rd_def)
qed

lemma wr_js_lift: "wr_js (map Fin x) k (Fin a) = map_option (map Fin) (wr x k a)"
  by (simp add: wr_js_def wr_def map_update)

lemmas lift_simps = rd_js_lift wr_js_lift bind_map_option map_option_bind o_def

lemma setBoundary_row_js_lift:
  "setBoundary_row_js N bt i (map Fin x) = map_option (map Fin) (setBoundary_row N bt i x)"
  by (simp add: setBoundary_row_js_def setBoundary_row_def lift_simps)

lemma setBoundary_col_js_lift:
  "setBoundary_col_js N bt j (map Fin x) = map_option (map Fin) (setBoundary_col N bt j x)"
  by (simp add: setBoundary_col_js_def setBoundary_col_def lift_simps)

lemma setBoundary_corners_js_lift:
  "setBoundary_corners_js N (map Fin x) = map_option (map Fin) (setBoundary_corners N x)"
  by (simp add: setBoundary_corners_js_def setBoundary_corners_def lift_simps)

lemma setBoundary_js_lift:
  "setBoundary_js N (map Fin x) bt = map_option (map Fin) (setBoundary N x bt)"
proof -
  have r: "for_loop [1..N] (setBoundary_row_js N bt) (map Fin x) =
      map_option (map Fin) (for_loop [1..N] (setBoundary_row N bt) x)" for x
    by (rule for_loop_lift) (rule setBoundary_row_js_lift)
  have c: "for_loop [1..N] (setBoundary_col_js N bt) (map Fin x) =
      map_option (map Fin) (for_loop [1..N] (setBoundary_col N bt) x)" for x
    by (rule for_loop_lift) (rule setBoundary_col_js_lift)
  show ?thesis
    by (simp add: setBoundary_js_def setBoundary_def r c setBoundary_corners_js_lift
        bind_map_option map_option_bind o_def)
qed


lemma rd_num_lift:
  "rd_num (map Fin x) (index_js N (Fin (real_of_int a)) (Fin (real_of_int b))) =
     map_option Fin (rd x (index N a b))"
  "rd_num (map Fin x) (index_js N (Fin (real_of_int a)) (Fin (real_of_int b + 1))) =
     map_option Fin (rd x (index N a (b + 1)))"
  "rd_num (map Fin x) (index_js N (Fin (real_of_int a + 1)) (Fin (real_of_int b))) =
     map_option Fin (rd x (index N (a + 1) b))"
  "rd_num (map Fin x) (index_js N (Fin (real_of_int a + 1)) (Fin (real_of_int b + 1))) =
     map_option Fin (rd x (index N (a + 1) (b + 1)))"
  using index_js_int [of N a b] index_js_int [of N a "b + 1"] index_js_int [of N "a + 1" b]
    index_js_int [of N "a + 1" "b + 1"]
  by (simp_all add: rd_num_int rd_js_lift)

lemma advect_cell_backtrace:
  "advect_cell N x_0 u_0 v_0 i j x = do {
     uc \<leftarrow> rd u_0 (index N i j);
     vc \<leftarrow> rd v_0 (index N i j);
     let p_x = backtrace N i uc;
     let p_y = backtrace N j vc;
     let i0 = \<lfloor>p_x\<rfloor>;
     let i1 = i0 + 1;
     let j0 = \<lfloor>p_y\<rfloor>;
     let j1 = j0 + 1;
     let s1 = p_x - real_of_int i0;
     let s0 = 1 - s1;
     let t1 = p_y - real_of_int j0;
     let t0 = 1 - t1;
     x00 \<leftarrow> rd x_0 (index N i0 j0);
     x01 \<leftarrow> rd x_0 (index N i0 j1);
     x10 \<leftarrow> rd x_0 (index N i1 j0);
     x11 \<leftarrow> rd x_0 (index N i1 j1);
     wr x (index N i j) (s0 * (t0 * x00 + t1 * x01) + s1 * (t0 * x10 + t1 * x11))
   }"
  by (simp add: advect_cell_def backtrace_def Let_def)

lemma advect_cell_js_lift:
  "advect_cell_js N (map Fin x_0) (map Fin u_0) (map Fin v_0) i j (map Fin x) =
     map_option (map Fin) (advect_cell N x_0 u_0 v_0 i j x)"
proof (cases "rd u_0 (index N i j)")
  case None
  then show ?thesis
    unfolding advect_cell_js_backtrace advect_cell_backtrace
    by (simp only: rd_js_lift option.map bind.bind_lzero)
next
  case u: (Some uc)
  show ?thesis
  proof (cases "rd v_0 (index N i j)")
    case None
    then show ?thesis
      unfolding advect_cell_js_backtrace advect_cell_backtrace
      by (simp only: rd_js_lift u option.map bind.bind_lzero bind.bind_lunit)
  next
    case v: (Some vc)
    show ?thesis
      unfolding advect_cell_js_backtrace advect_cell_backtrace
      by (simp add: rd_js_lift u v Let_def js_sub_Fin backtrace_js_Fin rd_num_lift wr_js_lift
          bind_map_option map_option_bind o_def)
  qed
qed

lemma advect_js_lift:
  "advect_js N (map Fin x) (map Fin x_0) (map Fin u_0) (map Fin v_0) bt =
     map_option (map Fin) (advect N x x_0 u_0 v_0 bt)"
proof -
  have "for_loop [1..N] (\<lambda>i. for_loop [1..N] (advect_cell_js N (map Fin x_0) (map Fin u_0) (map Fin v_0) i)) (map Fin x) =
      map_option (map Fin) (for_loop [1..N] (\<lambda>i. for_loop [1..N] (advect_cell N x_0 u_0 v_0 i)) x)"
    by (intro for_loop_lift advect_cell_js_lift)
  then show ?thesis
    by (simp add: advect_js_def advect_def setBoundary_js_lift bind_map_option map_option_bind o_def)
qed

end
